theory Spec2Isabelle
  imports Complex_Main "HOL-Library.Word" "HOL-Library.Multiset"
begin

section \<open>Data model\<close>

text \<open>
  A JavaScript string is a sequence of UTF-16 code units; \<open>text.split("")\<close> yields exactly
  these units, one per array element. A JavaScript number is modelled as a mathematical
  real (pixel sizes read from an image are natural numbers); rounding of the binary64
  arithmetic is treated separately, where a statement is about it.
\<close>

type_synonym code_unit = "16 word"
type_synonym jsstring = "code_unit list"

definition ascii :: "string \<Rightarrow> jsstring" where
  "ascii s = map of_char s"

datatype status = Correct | Incorrect

text \<open>The interface \<open>GradingMark\<close> of \<open>types.ts\<close>; an optional field is an option.\<close>

record GradingMark =
  mark_id :: jsstring
  mark_x :: real
  mark_y :: real
  status :: status
  pageIndex :: nat
  question :: "jsstring option"
  studentAnswer :: "jsstring option"
  correctAnswer :: "jsstring option"
  explanation :: "jsstring option"

text \<open>The interface \<open>ExamPage\<close>; the \<open>File\<close> object is an opaque handle.\<close>

type_synonym File = nat

record ExamPage =
  page_id :: jsstring
  imageUrl :: jsstring
  page_file :: File
  detectedLanguage :: "jsstring option"

text \<open>
  \<open>v || d\<close> on an optional string: \<open>undefined\<close> and the empty string are both falsy,
  so both give the default.
\<close>

fun js_or :: "jsstring option \<Rightarrow> jsstring \<Rightarrow> jsstring" where
  "js_or None d = d"
| "js_or (Some s) d = (if s = [] then d else s)"

fun truthy :: "jsstring option \<Rightarrow> bool" where
  "truthy None = False"
| "truthy (Some s) = (s \<noteq> [])"

datatype error =
    ApiKeyNotConfigured
  | ServiceError
  | ImageLoadError
  | NoContext

text \<open>
  What the browser contributes: loading an image (\<open>onload\<close> with its natural width and
  height, or \<open>onerror\<close>), whether \<open>getContext("2d")\<close> yields a context (for the canvas of
  page \<open>i\<close> of the report, and for the canvas that rotates an image), the data URL a
  rotated canvas is exported to, and the width \<open>measureText\<close> reports for a string in a
  font.
\<close>

datatype font_style = Bold | Normal | Italic
datatype font = Font font_style int

record browser =
  loadImage :: "jsstring \<Rightarrow> (nat \<times> nat) option"
  pageContext :: "nat \<Rightarrow> bool"
  rotateContext :: "jsstring \<Rightarrow> bool"
  toDataURL :: "jsstring \<Rightarrow> int \<Rightarrow> jsstring"
  textWidth :: "font \<Rightarrow> jsstring \<Rightarrow> real"

section \<open>Report compositor: text wrapping\<close>

text \<open>
  The canvas context is used by \<open>wrapText\<close> in two ways: \<open>measureText(s).width\<close>, a
  function of the string for the font in effect (a parameter here), and \<open>fillText\<close>, whose
  calls are recorded in order. Colours and line styles are not recorded.
\<close>

datatype draw =
    FillText jsstring real real
  | FillRect real real real real
  | DrawImage jsstring
  | StrokePath "(real \<times> real) list list"
  | FillArc real real real

text \<open>
  The body of the \<open>for\<close> loop of \<open>wrapText\<close>: \<open>i\<close> is the loop index, \<open>cs\<close> the characters
  from index \<open>i\<close> on, and the state is \<open>(line, currentY, calls of fillText so far)\<close>.
\<close>

fun wrapText_loop ::
  "(jsstring \<Rightarrow> real) \<Rightarrow> real \<Rightarrow> real \<Rightarrow> real \<Rightarrow> nat \<Rightarrow> jsstring
     \<Rightarrow> jsstring \<times> real \<times> draw list \<Rightarrow> jsstring \<times> real \<times> draw list" where
  "wrapText_loop measureText x maxWidth lineHeight i [] st = st"
| "wrapText_loop measureText x maxWidth lineHeight i (c # cs) (line, currentY, out) =
     (let testLine = line @ [c];
          testWidth = measureText testLine
      in if testWidth > maxWidth \<and> i > 0
         then wrapText_loop measureText x maxWidth lineHeight (Suc i) cs
                ([c], currentY + lineHeight, out @ [FillText line x currentY])
         else wrapText_loop measureText x maxWidth lineHeight (Suc i) cs
                (testLine, currentY, out))"

text \<open>\<open>wrapText\<close> returns the calls of \<open>fillText\<close> it made and the new cursor.\<close>

definition wrapText ::
  "(jsstring \<Rightarrow> real) \<Rightarrow> jsstring \<Rightarrow> real \<Rightarrow> real \<Rightarrow> real \<Rightarrow> real \<Rightarrow> draw list \<times> real" where
  "wrapText measureText text x y maxWidth lineHeight =
     (case wrapText_loop measureText x maxWidth lineHeight 0 text ([], y, []) of
        (line, currentY, out) \<Rightarrow> (out @ [FillText line x currentY], currentY + lineHeight))"

text \<open>A canvas operation that writes a line of at least one character.\<close>

fun nonempty_line :: "draw \<Rightarrow> bool" where
  "nonempty_line (FillText s x y) = (s \<noteq> [])"
| "nonempty_line d = False"


section \<open>Report compositor: page layout\<close>

text \<open>
  \<open>Array.prototype.sort\<close> with a comparator is stable (ECMAScript 2019): an element is
  placed before the first element it does not compare greater than, and elements that
  compare equal keep their order. Insertion from the right computes that order.
\<close>

fun insert_by :: "('a \<Rightarrow> 'a \<Rightarrow> real) \<Rightarrow> 'a \<Rightarrow> 'a list \<Rightarrow> 'a list" where
  "insert_by cmp a [] = [a]"
| "insert_by cmp a (b # bs) = (if cmp a b \<le> 0 then a # b # bs else b # insert_by cmp a bs)"

definition js_sort :: "('a \<Rightarrow> 'a \<Rightarrow> real) \<Rightarrow> 'a list \<Rightarrow> 'a list" where
  "js_sort cmp xs = foldr (insert_by cmp) xs []"

text \<open>\<open>marks.filter((m) => m.pageIndex === i).sort((a, b) => a.y - b.y)\<close>\<close>

definition pageMarks :: "GradingMark list \<Rightarrow> nat \<Rightarrow> GradingMark list" where
  "pageMarks marks i =
     js_sort (\<lambda>a b. mark_y a - mark_y b) (filter (\<lambda>m. pageIndex m = i) marks)"

definition sidebarWidth :: "nat \<Rightarrow> nat" where
  "sidebarWidth originalWidth = nat \<lfloor>real originalWidth * 0.45\<rfloor>"

definition totalWidth :: "nat \<Rightarrow> nat" where
  "totalWidth originalWidth = originalWidth + sidebarWidth originalWidth"

definition sidebarPadding :: int where
  "sidebarPadding = 40"

definition sidebarContentWidth :: "nat \<Rightarrow> int" where
  "sidebarContentWidth originalWidth = int (sidebarWidth originalWidth) - sidebarPadding * 2"

definition baseFontSize :: "nat \<Rightarrow> int" where
  "baseFontSize originalWidth = \<lfloor>real originalWidth * 0.015\<rfloor>"

definition lineHeight :: "nat \<Rightarrow> real" where
  "lineHeight originalWidth = real_of_int (baseFontSize originalWidth) * 1.5"

text \<open>
  The callback of \<open>pageMarks.forEach\<close>: the state is the sidebar cursor
  \<open>currentSidebarY\<close> and the canvas operations so far.
\<close>

definition drawMark ::
  "browser \<Rightarrow> nat \<Rightarrow> nat \<Rightarrow> GradingMark \<Rightarrow> real \<times> draw list \<Rightarrow> real \<times> draw list" where
  "drawMark br originalWidth originalHeight mark st =
     (case st of (currentSidebarY, out) \<Rightarrow>
      let markX = (mark_x mark / 100) * real originalWidth;
          markY = (mark_y mark / 100) * real originalHeight;
          sidebarX = real originalWidth + real_of_int sidebarPadding;
          fontSize = baseFontSize originalWidth;
          contentWidth = real_of_int (sidebarContentWidth originalWidth);
          lh = lineHeight originalWidth;
          markSize = real originalWidth * 0.03;
          glyph =
            (if status mark = Correct
             then StrokePath [[(markX - markSize / 2, markY),
                               (markX - markSize / 10, markY + markSize / 2),
                               (markX + markSize / 2, markY - markSize)]]
             else let half = markSize * 0.4
                  in StrokePath [[(markX - half, markY - half), (markX + half, markY + half)],
                                 [(markX + half, markY - half), (markX - half, markY + half)]]);
          connector = StrokePath [[(markX + markSize, markY),
                                   (real originalWidth, currentSidebarY + real_of_int fontSize)]];
          badge = FillArc (sidebarX - 15) (currentSidebarY + real_of_int fontSize / 2) 6;
          out1 = out @ [glyph, connector, badge];
          (q, y1) = wrapText (textWidth br (Font Bold fontSize))
                      (js_or (question mark) (ascii ''Question''))
                      sidebarX currentSidebarY contentWidth lh;
          (a, y2) = wrapText (textWidth br (Font Normal fontSize))
                      (ascii ''Ans: '' @ js_or (studentAnswer mark) [])
                      sidebarX (y1 + 5) contentWidth lh;
          (c, y3) = (if status mark = Incorrect \<and> truthy (correctAnswer mark)
                     then wrapText (textWidth br (Font Italic fontSize))
                            (ascii ''Correct: '' @ the (correctAnswer mark))
                            sidebarX (y2 + 5) contentWidth lh
                     else ([], y2));
          (e, y4) = (if truthy (explanation mark)
                     then wrapText (textWidth br (Font Normal \<lfloor>real_of_int fontSize * 0.9\<rfloor>))
                            (ascii ''Note: '' @ the (explanation mark))
                            sidebarX (y3 + 5) contentWidth (lh * 0.9)
                     else ([], y3))
      in (y4 + lh * 1.5, out1 @ q @ a @ c @ e))"

text \<open>The canvas of one page: its size and the operations drawn on it, in order.\<close>

record canvas =
  canvas_width :: nat
  canvas_height :: nat
  drawn :: "draw list"

definition renderPage :: "browser \<Rightarrow> ExamPage \<Rightarrow> nat \<Rightarrow> nat \<Rightarrow> GradingMark list \<Rightarrow> canvas" where
  "renderPage br page originalWidth originalHeight pms =
     (let sw = sidebarWidth originalWidth;
          tw = originalWidth + sw;
          base = [FillRect 0 0 (real tw) (real originalHeight),
                  DrawImage (imageUrl page),
                  FillRect (real originalWidth) 0 (real sw) (real originalHeight),
                  StrokePath [[(real originalWidth, 0), (real originalWidth, real originalHeight)]],
                  FillText (ascii ''Grading Report / '' @ [0x8BC4, 0x5206, 0x62A5, 0x544A])
                    (real originalWidth + real_of_int sidebarPadding) 60]
      in \<lparr>canvas_width = tw, canvas_height = originalHeight,
          drawn = snd (foldl (\<lambda>st mark. drawMark br originalWidth originalHeight mark st)
                         (120, base) pms)\<rparr>)"

section \<open>Document assembler\<close>

datatype orientation = Landscape | Portrait

record pdf_page =
  page_width :: nat
  page_height :: nat
  page_orientation :: orientation
  page_image :: canvas

text \<open>
  \<open>pdf.addPage([w, h], o)\<close> followed by \<open>pdf.addImage(..., 0, 0, w, h)\<close>, as jsPDF treats
  them: no side of a page exceeds 14400 points, which with the unit \<open>px\<close> and the scale
  factor 72/96 of \<open>px_scaling\<close> is 19200 pixels, a longer side being cut to that length; then
  the two sides are exchanged when they contradict the orientation asked for.
\<close>

definition maxPageSide :: nat where
  "maxPageSide = 19200"

definition addPage :: "nat \<times> nat \<Rightarrow> orientation \<Rightarrow> canvas \<Rightarrow> pdf_page list \<Rightarrow> pdf_page list" where
  "addPage format ori img pdf =
     (case format of (w, h) \<Rightarrow>
        let w1 = min maxPageSide w;
            h1 = min maxPageSide h;
            (w', h') = (if ori = Landscape \<and> h1 > w1 \<or> ori = Portrait \<and> w1 > h1
                        then (h1, w1) else (w1, h1))
        in pdf @ [\<lparr>page_width = w', page_height = h', page_orientation = ori,
                    page_image = img\<rparr>])"

text \<open>
  The loop of \<open>generateGradedPDF\<close> over the pages, from index \<open>i\<close>. The rejected promise of
  the image load leaves the function as an error; a missing context takes \<open>continue\<close>.
\<close>

fun generate_loop ::
  "browser \<Rightarrow> GradingMark list \<Rightarrow> nat \<Rightarrow> ExamPage list \<Rightarrow> pdf_page list
     \<Rightarrow> error + pdf_page list" where
  "generate_loop br marks i [] pdf = Inr pdf"
| "generate_loop br marks i (page # rest) pdf =
     (let pms = pageMarks marks i
      in case loadImage br (imageUrl page) of
           None \<Rightarrow> Inl ImageLoadError
         | Some (originalWidth, originalHeight) \<Rightarrow>
             let tw = totalWidth originalWidth
             in if \<not> pageContext br i
                then generate_loop br marks (Suc i) rest pdf
                else generate_loop br marks (Suc i) rest
                       (addPage (tw, originalHeight)
                          (if tw > originalHeight then Landscape else Portrait)
                          (renderPage br page originalWidth originalHeight pms) pdf))"

text \<open>
  The document starts without pages: the page a new jsPDF document has is deleted
  before the loop.
\<close>

definition generateGradedPDF ::
  "browser \<Rightarrow> ExamPage list \<Rightarrow> GradingMark list \<Rightarrow> error + pdf_page list" where
  "generateGradedPDF br pages marks = generate_loop br marks 0 pages []"

section \<open>Orientation reconciler and bulk creation of marks\<close>

text \<open>A mark as the service returns it, and the parsed answer for one page.\<close>

record raw_mark =
  raw_x :: real
  raw_y :: real
  raw_status :: status
  raw_question :: "jsstring option"
  student_answer :: "jsstring option"
  correct_answer :: "jsstring option"
  raw_explanation :: "jsstring option"

record service_result =
  rotation_needed :: "int option"
  detected_language :: "jsstring option"
  result_marks :: "raw_mark list option"

text \<open>
  The callback of \<open>pageMarks.map\<close> under \<open>rotation !== 0\<close>. The subtractions are binary64
  operations; \<open>fl\<close> is the rounding applied to their exact results.
\<close>

definition transformMark_fl :: "(real \<Rightarrow> real) \<Rightarrow> int \<Rightarrow> raw_mark \<Rightarrow> raw_mark" where
  "transformMark_fl fl rotation m =
     (let (nx, ny) =
            (if rotation = 90 then (fl (100 - raw_y m), raw_x m)
             else if rotation = 180 then (fl (100 - raw_x m), fl (100 - raw_y m))
             else if rotation = 270 then (raw_y m, fl (100 - raw_x m))
             else (raw_x m, raw_y m))
      in m\<lparr>raw_x := nx, raw_y := ny\<rparr>)"

text \<open>With exact arithmetic, the model of numbers used everywhere else.\<close>

definition transformMark :: "int \<Rightarrow> raw_mark \<Rightarrow> raw_mark" where
  "transformMark rotation m = transformMark_fl (\<lambda>r. r) rotation m"

text \<open>
  The standard model of binary64 rounding to nearest: the relative error of a rounded
  result is at most \<open>1 / 2 ^ 53\<close> (no overflow occurs below 100, and a difference of two
  binary64 numbers that falls in the subnormal range is exact).
\<close>

definition binary64_rounding :: "(real \<Rightarrow> real) \<Rightarrow> bool" where
  "binary64_rounding fl = (\<forall>r. \<bar>fl r - r\<bar> \<le> \<bar>r\<bar> / 2 ^ 53)"

text \<open>\<open>rotateImage\<close>: the new image URL, or the rejection of its promise.\<close>

definition rotateImage :: "browser \<Rightarrow> jsstring \<Rightarrow> int \<Rightarrow> error + jsstring" where
  "rotateImage br url angle =
     (if angle = 0 then Inr url
      else case loadImage br url of
             None \<Rightarrow> Inl ImageLoadError
           | Some (w, h) \<Rightarrow>
               if \<not> rotateContext br url then Inl NoContext
               else Inr (toDataURL br url angle))"

text \<open>
  What the service contributes: whether an API key is configured, the outcome of the
  request for page \<open>i\<close> (an exception of the file read, the request or \<open>JSON.parse\<close>; an
  empty answer; or the parsed answer), and the string that the \<open>k\<close>-th evaluation of
  \<open>Math.random().toString(36).substr(2, 9)\<close> gives.
\<close>

record service =
  apiKeyValid :: bool
  respond :: "nat \<Rightarrow> error + service_result option"
  randomToken :: "nat \<Rightarrow> jsstring"

text \<open>The object pushed to \<open>allMarks\<close> for one mark of page \<open>i\<close>.\<close>

definition toGradingMark :: "ExamPage \<Rightarrow> jsstring \<Rightarrow> nat \<Rightarrow> jsstring \<Rightarrow> raw_mark \<Rightarrow> GradingMark" where
  "toGradingMark page language i token m =
     \<lparr>mark_id = ascii ''mark-'' @ page_id page @ ascii ''-'' @ token,
      mark_x = raw_x m,
      mark_y = raw_y m,
      status = raw_status m,
      pageIndex = i,
      question = Some (js_or (raw_question m)
                   (if language = ascii ''zh'' then [0x9898, 0x76EE] else ascii ''Question'')),
      studentAnswer = Some (js_or (student_answer m)
                   (if language = ascii ''zh'' then [0x672A, 0x77E5] else ascii ''Unknown'')),
      correctAnswer = Some (js_or (correct_answer m) (ascii ''-'')),
      explanation = Some (js_or (raw_explanation m)
                   (if language = ascii ''zh'' then [0x65E0, 0x89E3, 0x6790]
                    else ascii ''No explanation provided.''))\<rparr>"

text \<open>
  \<open>pageMarks.forEach\<close>: the state is \<open>allMarks\<close> and the number of random strings drawn.
\<close>

fun pushMarks ::
  "service \<Rightarrow> ExamPage \<Rightarrow> jsstring \<Rightarrow> nat \<Rightarrow> raw_mark list \<Rightarrow> GradingMark list \<times> nat
     \<Rightarrow> GradingMark list \<times> nat" where
  "pushMarks sv page language i [] st = st"
| "pushMarks sv page language i (m # ms) (allMarks, k) =
     pushMarks sv page language i ms
       (allMarks @ [toGradingMark page language i (randomToken sv k) m], Suc k)"

text \<open>
  The loop of \<open>gradeExamPages\<close> over the pages, from index \<open>i\<close>; the state is
  \<open>allMarks\<close>, \<open>processedPages\<close> and the number of random strings drawn. An exception
  is logged and thrown again, so it ends the function.
\<close>

fun grade_loop ::
  "service \<Rightarrow> browser \<Rightarrow> nat \<Rightarrow> ExamPage list \<Rightarrow> GradingMark list \<times> ExamPage list \<times> nat
     \<Rightarrow> error + GradingMark list \<times> ExamPage list \<times> nat" where
  "grade_loop sv br i [] st = Inr st"
| "grade_loop sv br i (page # rest) (allMarks, processedPages, k) =
     (case respond sv i of
        Inl e \<Rightarrow> Inl e
      | Inr None \<Rightarrow> grade_loop sv br (Suc i) rest (allMarks, processedPages, k)
      | Inr (Some result) \<Rightarrow>
          let rotation = (case rotation_needed result of None \<Rightarrow> 0 | Some r \<Rightarrow> r);
              language = js_or (detected_language result) (ascii ''en'');
              pms = (case result_marks result of None \<Rightarrow> [] | Some ms \<Rightarrow> ms)
          in if rotation \<noteq> 0
             then (case rotateImage br (imageUrl page) rotation of
                     Inl e \<Rightarrow> Inl e
                   | Inr newImageUrl \<Rightarrow>
                       (case pushMarks sv page language i (map (transformMark rotation) pms)
                               (allMarks, k) of
                          (allMarks', k') \<Rightarrow>
                            grade_loop sv br (Suc i) rest
                              (allMarks',
                               processedPages[i := page\<lparr>imageUrl := newImageUrl,
                                                         detectedLanguage := Some language\<rparr>],
                               k')))
             else (case pushMarks sv page language i pms (allMarks, k) of
                     (allMarks', k') \<Rightarrow>
                       grade_loop sv br (Suc i) rest
                         (allMarks',
                          processedPages[i := page\<lparr>detectedLanguage := Some language\<rparr>],
                          k')))"

definition gradeExamPages ::
  "service \<Rightarrow> browser \<Rightarrow> ExamPage list \<Rightarrow> error + GradingMark list \<times> ExamPage list" where
  "gradeExamPages sv br pages =
     (if \<not> apiKeyValid sv then Inl ApiKeyNotConfigured
      else case grade_loop sv br 0 pages ([], pages, 0) of
             Inl e \<Rightarrow> Inl e
           | Inr (allMarks, processedPages, k) \<Rightarrow> Inr (allMarks, processedPages))"

section \<open>Interactive mark editor\<close>

text \<open>
  The state is the array \<open>marks\<close> of \<open>App\<close>; each handler maps the previous array to the
  next one.
\<close>

definition updateMark :: "GradingMark \<Rightarrow> GradingMark list \<Rightarrow> GradingMark list" where
  "updateMark updatedMark prev =
     map (\<lambda>m. if mark_id m = mark_id updatedMark then updatedMark else m) prev"

definition removeMark :: "jsstring \<Rightarrow> GradingMark list \<Rightarrow> GradingMark list" where
  "removeMark markId prev = filter (\<lambda>m. mark_id m \<noteq> markId) prev"

text \<open>
  The decimal digits of a natural number, as a template literal prints \<open>Date.now()\<close>, the
  number of milliseconds since the epoch.
\<close>

definition digit :: "nat \<Rightarrow> code_unit" where
  "digit d = of_nat (48 + d)"

fun toString :: "nat \<Rightarrow> jsstring" where
  "toString n = (if n < 10 then [digit n] else toString (n div 10) @ [digit (n mod 10)])"

text \<open>
  \<open>addMark\<close>, with the value \<open>now\<close> that \<open>Date.now()\<close> returns at the call: the object
  \<open>newMark\<close>, and the array after \<open>setMarks\<close>.
\<close>

definition newMark :: "nat \<Rightarrow> real \<Rightarrow> real \<Rightarrow> nat \<Rightarrow> GradingMark" where
  "newMark now x y pgIndex =
     \<lparr>mark_id = ascii ''manual-'' @ toString now,
      mark_x = x, mark_y = y, status = Correct, pageIndex = pgIndex,
      question = None, studentAnswer = None, correctAnswer = None, explanation = None\<rparr>"

definition addMark :: "nat \<Rightarrow> real \<Rightarrow> real \<Rightarrow> nat \<Rightarrow> GradingMark list \<Rightarrow> GradingMark list" where
  "addMark now x y pgIndex prev = prev @ [newMark now x y pgIndex]"

text \<open>
  A session of the editor: the marks the service created are installed
  (\<open>setMarks(aiMarks)\<close>), then the user adds, updates and removes marks.
\<close>

datatype event =
    AddMark nat real real nat
  | UpdateMark GradingMark
  | RemoveMark jsstring

fun apply_event :: "GradingMark list \<Rightarrow> event \<Rightarrow> GradingMark list" where
  "apply_event prev (AddMark now x y pgIndex) = addMark now x y pgIndex prev"
| "apply_event prev (UpdateMark m) = updateMark m prev"
| "apply_event prev (RemoveMark markId) = removeMark markId prev"

definition session :: "GradingMark list \<Rightarrow> event list \<Rightarrow> GradingMark list" where
  "session aiMarks events = foldl apply_event aiMarks events"

text \<open>The values of \<open>Date.now()\<close> read by the adds of a session, in order.\<close>

fun clock_readings :: "event list \<Rightarrow> nat list" where
  "clock_readings [] = []"
| "clock_readings (AddMark now x y pgIndex # es) = now # clock_readings es"
| "clock_readings (e # es) = clock_readings es"

section \<open>Sample environments\<close>

text \<open>
  Environments on which the functions above are run at concrete inputs: a browser in
  which every image loads with the given size, a context is available or not, and every
  code unit is one pixel wide; a service that answers every page with the given result
  and whose \<open>k\<close>-th random string is the decimal numeral of \<open>k\<close>.
\<close>

definition sample_browser :: "nat \<times> nat \<Rightarrow> bool \<Rightarrow> browser" where
  "sample_browser dims ctx =
     \<lparr>loadImage = (\<lambda>url. Some dims), pageContext = (\<lambda>i. ctx), rotateContext = (\<lambda>url. ctx),
      toDataURL = (\<lambda>url angle. url), textWidth = (\<lambda>f s. real (length s))\<rparr>"

definition sample_service :: "service_result \<Rightarrow> service" where
  "sample_service r =
     \<lparr>apiKeyValid = True, respond = (\<lambda>i. Inr (Some r)), randomToken = toString\<rparr>"

definition sample_page :: ExamPage where
  "sample_page = \<lparr>page_id = ascii ''p1'', imageUrl = ascii ''blob:1'', page_file = 0,
                  detectedLanguage = None\<rparr>"

text \<open>A mark of the service at the given position, without optional text.\<close>

definition sample_raw :: "real \<Rightarrow> real \<Rightarrow> status \<Rightarrow> raw_mark" where
  "sample_raw x y st =
     \<lparr>raw_x = x, raw_y = y, raw_status = st, raw_question = None, student_answer = None,
      correct_answer = None, raw_explanation = None\<rparr>"

declare toString.simps [simp del]
section \<open>Properties of the wrapping routine\<close>

lemma wrapText_loop_currentY:
  "wrapText_loop mt x mw lh i cs (line, cy, out) = (line', cy', out') \<Longrightarrow>
     cy' = cy + real (length out' - length out) * lh \<and> length out \<le> length out'"
proof (induction cs arbitrary: i line cy out)
  case Nil
  then show ?case by simp
next
  case (Cons c cs)
  show ?case
  proof (cases "mt (line @ [c]) > mw \<and> i > 0")
    case True
    with Cons.prems have
      "wrapText_loop mt x mw lh (Suc i) cs ([c], cy + lh, out @ [FillText line x cy]) = (line', cy', out')"
      by (simp add: Let_def)
    from Cons.IH [OF this] have
      "cy' = cy + lh + real (length out' - Suc (length out)) * lh" "Suc (length out) \<le> length out'"
      by simp_all
    then show ?thesis
      by (simp add: Suc_diff_le algebra_simps of_nat_diff)
  next
    case False
    with Cons.prems have
      "wrapText_loop mt x mw lh (Suc i) cs (line @ [c], cy, out) = (line', cy', out')"
      by (auto simp add: Let_def)
    from Cons.IH [OF this] show ?thesis .
  qed
qed

lemma wrapText_loop_lines:
  "wrapText_loop mt x mw lh i cs (line, cy, out) = (line', cy', out') \<Longrightarrow>
   (0 < i \<longrightarrow> line \<noteq> []) \<Longrightarrow> (\<forall>d \<in> set out. nonempty_line d) \<Longrightarrow>
     (\<forall>d \<in> set out'. nonempty_line d) \<and> (0 < i + length cs \<longrightarrow> line' \<noteq> [])
     \<and> length out' + (if line' = [] then 0 else 1) \<le> length out + (if line = [] then 0 else 1) + length cs"
proof (induction cs arbitrary: i line cy out)
  case Nil
  then show ?case by simp
next
  case (Cons c cs)
  show ?case
  proof (cases "mt (line @ [c]) > mw \<and> i > 0")
    case True
    with Cons.prems(1) have run:
      "wrapText_loop mt x mw lh (Suc i) cs ([c], cy + lh, out @ [FillText line x cy]) = (line', cy', out')"
      by (simp add: Let_def)
    from True Cons.prems(2) have "line \<noteq> []" by simp
    with Cons.prems(3) have "\<forall>d \<in> set (out @ [FillText line x cy]). nonempty_line d"
      by simp
    with Cons.IH [OF run] \<open>line \<noteq> []\<close> show ?thesis
      by (auto split: if_splits)
  next
    case False
    with Cons.prems(1) have run:
      "wrapText_loop mt x mw lh (Suc i) cs (line @ [c], cy, out) = (line', cy', out')"
      by (auto simp add: Let_def)
    from Cons.IH [OF run _ Cons.prems(3)] show ?thesis
      by (auto split: if_splits)
  qed
qed

lemma wrapText_cursor:
  "snd (wrapText mt text x y mw lh) = y + real (length (fst (wrapText mt text x y mw lh))) * lh"
proof -
  obtain line cy out where run: "wrapText_loop mt x mw lh 0 text ([], y, []) = (line, cy, out)"
    by (metis prod_cases3)
  from wrapText_loop_currentY [OF run] have "cy = y + real (length out) * lh"
    by simp
  with run show ?thesis
    by (simp add: wrapText_def algebra_simps)
qed

lemma wrapText_flushes:
  assumes run: "wrapText_loop mt x mw lh 0 text ([], y, []) = (line, cy, out)"
  shows "(\<forall>d \<in> set out. nonempty_line d) \<and> (text \<noteq> [] \<longrightarrow> line \<noteq> [])
           \<and> length out + (if line = [] then 0 else 1) \<le> length text"
  using wrapText_loop_lines [OF run] by simp

lemma wrapText_positive_lineHeight:
  "0 < lh \<Longrightarrow>
     \<exists>out y'. wrapText mt text x y mw lh = (out, y') \<and> y < y' \<and> y' = y + real (length out) * lh
        \<and> 0 < length out"
proof -
  assume lh: "0 < lh"
  obtain out y' where w: "wrapText mt text x y mw lh = (out, y')"
    by (cases "wrapText mt text x y mw lh")
  have len: "0 < length out"
    using w by (auto simp add: wrapText_def split: prod.splits)
  from wrapText_cursor [of mt "text" x y mw lh] w have y': "y' = y + real (length out) * lh"
    by simp
  from len lh have "0 < real (length out) * lh"
    by simp
  with y' w len show ?thesis
    by simp
qed

text \<open>
  C10. The loop breaks a line only at an index above 0, when the line holds at least one
  code unit: for every text and every maximum width, also one below the width of a single
  character, each line flushed by the loop (each line written but the last, which the call
  of \<open>fillText\<close> after the loop writes) holds at least one code unit, and the loop
  flushes at most as many lines as the text has code units. For a text that is not empty
  the same is true of all lines written, the last one included.
\<close>

theorem wrapText_lines_nonempty:
  "(\<forall>d \<in> set (butlast (fst (wrapText mt text x y mw lh))). nonempty_line d)
   \<and> length (butlast (fst (wrapText mt text x y mw lh))) \<le> length text
   \<and> (text \<noteq> [] \<longrightarrow>
        (\<forall>d \<in> set (fst (wrapText mt text x y mw lh)). nonempty_line d)
        \<and> length (fst (wrapText mt text x y mw lh)) \<le> length text)"
proof -
  obtain line cy out where run: "wrapText_loop mt x mw lh 0 text ([], y, []) = (line, cy, out)"
    by (metis prod_cases3)
  then have w: "fst (wrapText mt text x y mw lh) = out @ [FillText line x cy]"
    by (simp add: wrapText_def)
  from wrapText_flushes [OF run] show ?thesis
    unfolding w by (auto split: if_splits)
qed

theorem wrapText_lines_nonempty_witness:
  "list_all nonempty_line (butlast (fst (wrapText (real \<circ> length) (ascii ''abc'') 0 0 (1/2) 3)))
   \<and> length (butlast (fst (wrapText (real \<circ> length) (ascii ''abc'') 0 0 (1/2) 3))) \<le> length (ascii ''abc'')
   \<and> ascii ''abc'' \<noteq> []
   \<and> list_all nonempty_line (fst (wrapText (real \<circ> length) (ascii ''abc'') 0 0 (1/2) 3))
   \<and> length (fst (wrapText (real \<circ> length) (ascii ''abc'') 0 0 (1/2) 3)) = 3"
  using wrapText_lines_nonempty [of "real \<circ> length" "ascii ''abc''" 0 0 "1/2" 3]
  by (simp add: wrapText_def ascii_def)

section \<open>Properties of the orientation reconciler\<close>

text \<open>
  C1. For every mark the service returns, the reconciler maps \<open>(x, y)\<close> to
  \<open>(100 - y, x)\<close> under rotation 90, to \<open>(100 - x, 100 - y)\<close> under rotation 180 and to
  \<open>(y, 100 - x)\<close> under rotation 270, and leaves every other field as it is; the mark pushed
  to the result carries these coordinates; a mark at \<open>(10, 20)\<close> under rotation 90 comes
  out at \<open>(80, 10)\<close>, also through the whole of \<open>gradeExamPages\<close> on a one-page input.
\<close>

theorem transformMark_remaps:
  "transformMark 90 m = m\<lparr>raw_x := 100 - raw_y m, raw_y := raw_x m\<rparr>
   \<and> transformMark 180 m = m\<lparr>raw_x := 100 - raw_x m, raw_y := 100 - raw_y m\<rparr>
   \<and> transformMark 270 m = m\<lparr>raw_x := raw_y m, raw_y := 100 - raw_x m\<rparr>
   \<and> mark_x (toGradingMark page language i token (transformMark 90 m)) = 100 - raw_y m
   \<and> mark_y (toGradingMark page language i token (transformMark 90 m)) = raw_x m
   \<and> mark_x (toGradingMark page language i token (transformMark 180 m)) = 100 - raw_x m
   \<and> mark_y (toGradingMark page language i token (transformMark 180 m)) = 100 - raw_y m
   \<and> mark_x (toGradingMark page language i token (transformMark 270 m)) = raw_y m
   \<and> mark_y (toGradingMark page language i token (transformMark 270 m)) = 100 - raw_x m
   \<and> raw_x (transformMark 90 (m\<lparr>raw_x := 10, raw_y := 20\<rparr>)) = 80
   \<and> raw_y (transformMark 90 (m\<lparr>raw_x := 10, raw_y := 20\<rparr>)) = 10
   \<and> (case gradeExamPages
              (sample_service \<lparr>rotation_needed = Some 90, detected_language = None,
                               result_marks = Some [sample_raw 10 20 Correct]\<rparr>)
              (sample_browser (100, 200) True) [sample_page] of
         Inr (marks, pages) \<Rightarrow> map mark_x marks = [80] \<and> map mark_y marks = [10]
       | Inl e \<Rightarrow> False)"
  by (simp add: transformMark_def transformMark_fl_def toGradingMark_def gradeExamPages_def
      sample_service_def sample_browser_def sample_page_def sample_raw_def rotateImage_def
      Let_def)

section \<open>Defaults of the optional text fields\<close>

lemma language_default:
  "js_or (Some (ascii ''zh'')) (ascii ''en'') = ascii ''zh''"
  "js_or (Some (ascii ''en'')) (ascii ''en'') = ascii ''en''"
  "js_or None (ascii ''en'') = ascii ''en''"
  by (simp_all add: ascii_def)

lemma transformMark_0: "transformMark 0 m = m"
  by (simp add: transformMark_def transformMark_fl_def)

lemma transformMark_text:
  "raw_question (transformMark rot m) = raw_question m"
  "student_answer (transformMark rot m) = student_answer m"
  "correct_answer (transformMark rot m) = correct_answer m"
  "raw_explanation (transformMark rot m) = raw_explanation m"
  by (simp_all add: transformMark_def transformMark_fl_def Let_def split: prod.splits)

text \<open>\<open>forEach\<close> pushes one mark for each mark of the service, in order.\<close>

lemma pushMarks_pushes:
  "pushMarks sv page language i ms (allMarks, k) = (allMarks', k') \<Longrightarrow>
     \<exists>new. allMarks' = allMarks @ new
        \<and> list_all2 (\<lambda>g m. \<exists>token. g = toGradingMark page language i token m) new ms"
proof (induction ms arbitrary: allMarks k)
  case Nil
  then show ?case by simp
next
  case (Cons m ms)
  let ?g = "toGradingMark page language i (randomToken sv k) m"
  from Cons.prems have "pushMarks sv page language i ms (allMarks @ [?g], Suc k) = (allMarks', k')"
    by simp
  from Cons.IH [OF this] obtain new where
    new: "allMarks' = (allMarks @ [?g]) @ new"
      "list_all2 (\<lambda>g m. \<exists>token. g = toGradingMark page language i token m) new ms"
    by blast
  from new(2) have "list_all2 (\<lambda>g m. \<exists>token. g = toGradingMark page language i token m)
                      (?g # new) (m # ms)"
    by auto
  moreover from new(1) have "allMarks' = allMarks @ (?g # new)"
    by simp
  ultimately show ?case
    by blast
qed

text \<open>
  One turn of the loop of \<open>gradeExamPages\<close> that does not throw: either the answer was
  empty and the state is as before, or the marks of the parsed answer were pushed, after
  the rotation.
\<close>

lemma grade_loop_step:
  assumes "grade_loop sv br i (page # rest) (allMarks, processedPages, k) = Inr r"
  shows "(respond sv i = Inr None
            \<and> grade_loop sv br (Suc i) rest (allMarks, processedPages, k) = Inr r)
       \<or> (\<exists>result allMarks1 pp1 k1.
             respond sv i = Inr (Some result)
             \<and> pushMarks sv page (js_or (detected_language result) (ascii ''en'')) i
                  (map (transformMark (case rotation_needed result of None \<Rightarrow> 0 | Some a \<Rightarrow> a))
                     (case result_marks result of None \<Rightarrow> [] | Some ms \<Rightarrow> ms))
                  (allMarks, k) = (allMarks1, k1)
             \<and> grade_loop sv br (Suc i) rest (allMarks1, pp1, k1) = Inr r)"
proof (cases "respond sv i")
  case (Inl e)
  with assms show ?thesis by simp
next
  case (Inr answer)
  show ?thesis
  proof (cases answer)
    case None
    with Inr assms show ?thesis by simp
  next
    case (Some result)
    define rotation where "rotation = (case rotation_needed result of None \<Rightarrow> 0 | Some a \<Rightarrow> a)"
    define language where "language = js_or (detected_language result) (ascii ''en'')"
    define pms where "pms = (case result_marks result of None \<Rightarrow> [] | Some ms \<Rightarrow> ms)"
    obtain allMarks1 k1 where
      push: "pushMarks sv page language i (map (transformMark rotation) pms) (allMarks, k)
               = (allMarks1, k1)"
      by (cases "pushMarks sv page language i (map (transformMark rotation) pms) (allMarks, k)")
    have same: "rotation = 0 \<Longrightarrow> map (transformMark rotation) pms = pms"
      by (induction pms) (simp_all add: transformMark_0)
    have "\<exists>pp1. grade_loop sv br (Suc i) rest (allMarks1, pp1, k1) = Inr r"
    proof (cases "rotation = 0")
      case True
      with assms Inr Some push same show ?thesis
        by (auto simp add: rotation_def [symmetric] language_def [symmetric] pms_def [symmetric]
            Let_def)
    next
      case False
      with assms Inr Some push show ?thesis
        by (auto simp add: rotation_def [symmetric] language_def [symmetric] pms_def [symmetric]
            Let_def split: sum.splits)
    qed
    with Inr Some push show ?thesis
      unfolding rotation_def language_def pms_def by blast
  qed
qed

text \<open>
  The marks \<open>gradeExamPages\<close> adds while it goes through the pages from index \<open>i0\<close>: each
  belongs to one of these pages, one whose answer was parsed, and the marks of page \<open>j\<close>
  are, in order, one for each mark of the answer for page \<open>j\<close>, made with the language
  detected for that page.
\<close>

lemma grade_loop_marks:
  "grade_loop sv br i0 pages (allMarks, pp, k) = Inr (allMarks', pp', k') \<Longrightarrow>
     \<exists>new. allMarks' = allMarks @ new
       \<and> (\<forall>m \<in> set new. i0 \<le> pageIndex m \<and> pageIndex m < i0 + length pages
              \<and> (\<exists>result. respond sv (pageIndex m) = Inr (Some result)))
       \<and> (\<forall>j result. i0 \<le> j \<longrightarrow> j < i0 + length pages \<longrightarrow> respond sv j = Inr (Some result) \<longrightarrow>
              list_all2 (\<lambda>g m. \<exists>page token rot.
                           g = toGradingMark page (js_or (detected_language result) (ascii ''en''))
                                 j token (transformMark rot m))
                (filter (\<lambda>m. pageIndex m = j) new)
                (case result_marks result of None \<Rightarrow> [] | Some ms \<Rightarrow> ms))"
proof (induction pages arbitrary: i0 allMarks pp k)
  case Nil
  then show ?case by simp
next
  case (Cons page rest)
  let ?R = "\<lambda>j result g m. \<exists>page token rot.
              g = toGradingMark page (js_or (detected_language result) (ascii ''en''))
                    j token (transformMark rot m)"
  let ?raws = "\<lambda>result. case result_marks result of None \<Rightarrow> [] | Some ms \<Rightarrow> ms"
  from grade_loop_step [OF Cons.prems] consider
    (empty) "respond sv i0 = Inr None"
      "grade_loop sv br (Suc i0) rest (allMarks, pp, k) = Inr (allMarks', pp', k')"
  | (parsed) result allMarks1 pp1 k1 where "respond sv i0 = Inr (Some result)"
      "pushMarks sv page (js_or (detected_language result) (ascii ''en'')) i0
         (map (transformMark (case rotation_needed result of None \<Rightarrow> 0 | Some a \<Rightarrow> a))
            (?raws result)) (allMarks, k) = (allMarks1, k1)"
      "grade_loop sv br (Suc i0) rest (allMarks1, pp1, k1) = Inr (allMarks', pp', k')"
    by blast
  then show ?case
  proof cases
    case empty
    from Cons.IH [OF empty(2)] obtain new where
      new: "allMarks' = allMarks @ new"
        "\<forall>m \<in> set new. Suc i0 \<le> pageIndex m \<and> pageIndex m < Suc i0 + length rest
              \<and> (\<exists>result. respond sv (pageIndex m) = Inr (Some result))"
        "\<forall>j result. Suc i0 \<le> j \<longrightarrow> j < Suc i0 + length rest \<longrightarrow> respond sv j = Inr (Some result) \<longrightarrow>
              list_all2 (?R j result) (filter (\<lambda>m. pageIndex m = j) new) (?raws result)"
      by blast
    have "list_all2 (?R j result) (filter (\<lambda>m. pageIndex m = j) new) (?raws result)"
      if "i0 \<le> j" "j < i0 + length (page # rest)" "respond sv j = Inr (Some result)" for j result
    proof -
      from that(3) empty(1) have "j \<noteq> i0" by auto
      with that have "Suc i0 \<le> j" "j < Suc i0 + length rest" by simp_all
      with new(3) that(3) show ?thesis by blast
    qed
    moreover from new(2) have "\<forall>m \<in> set new. i0 \<le> pageIndex m
        \<and> pageIndex m < i0 + length (page # rest)
        \<and> (\<exists>result. respond sv (pageIndex m) = Inr (Some result))"
      by auto
    ultimately show ?thesis
      using new(1) by blast
  next
    case parsed
    let ?rot = "case rotation_needed result of None \<Rightarrow> 0 | Some a \<Rightarrow> a"
    from pushMarks_pushes [OF parsed(2)] obtain new1 where
      new1: "allMarks1 = allMarks @ new1"
        "list_all2 (\<lambda>g m. \<exists>token. g = toGradingMark page
             (js_or (detected_language result) (ascii ''en'')) i0 token m)
           new1 (map (transformMark ?rot) (?raws result))"
      by blast
    from new1(2) have rel1: "list_all2 (?R i0 result) new1 (?raws result)"
      unfolding list_all2_map2 by (rule list_all2_mono) blast
    have idx1: "pageIndex g = i0" if "g \<in> set new1" for g
    proof -
      from that obtain n where "n < length new1" "g = new1 ! n"
        by (auto simp add: in_set_conv_nth)
      with rel1 have "?R i0 result g ((?raws result) ! n)"
        by (simp add: list_all2_conv_all_nth)
      then show ?thesis
        by (auto simp add: toGradingMark_def)
    qed
    from Cons.IH [OF parsed(3)] obtain new2 where
      new2: "allMarks' = allMarks1 @ new2"
        "\<forall>m \<in> set new2. Suc i0 \<le> pageIndex m \<and> pageIndex m < Suc i0 + length rest
              \<and> (\<exists>result. respond sv (pageIndex m) = Inr (Some result))"
        "\<forall>j result. Suc i0 \<le> j \<longrightarrow> j < Suc i0 + length rest \<longrightarrow> respond sv j = Inr (Some result) \<longrightarrow>
              list_all2 (?R j result) (filter (\<lambda>m. pageIndex m = j) new2) (?raws result)"
      by blast
    have f1: "filter (\<lambda>m. pageIndex m = i0) new1 = new1"
      using idx1 by (simp add: filter_id_conv)
    have f2: "filter (\<lambda>m. pageIndex m = i0) new2 = []"
      using new2(2) by (auto simp add: filter_empty_conv)
    have f3: "filter (\<lambda>m. pageIndex m = j) new1 = []" if "j \<noteq> i0" for j
      using idx1 that by (auto simp add: filter_empty_conv)
    have "list_all2 (?R j r) (filter (\<lambda>m. pageIndex m = j) (new1 @ new2)) (?raws r)"
      if "i0 \<le> j" "j < i0 + length (page # rest)" "respond sv j = Inr (Some r)" for j r
    proof (cases "j = i0")
      case True
      with that(3) parsed(1) have "r = result" by simp
      with True rel1 f1 f2 show ?thesis by simp
    next
      case False
      with that have "Suc i0 \<le> j" "j < Suc i0 + length rest" by simp_all
      with new2(3) that(3) have
        "list_all2 (?R j r) (filter (\<lambda>m. pageIndex m = j) new2) (?raws r)"
        by blast
      with f3 [OF False] show ?thesis by simp
    qed
    moreover have "\<forall>m \<in> set (new1 @ new2). i0 \<le> pageIndex m
        \<and> pageIndex m < i0 + length (page # rest)
        \<and> (\<exists>result. respond sv (pageIndex m) = Inr (Some result))"
      using idx1 parsed(1) new2(2) by auto
    moreover from new1(1) new2(1) have "allMarks' = allMarks @ (new1 @ new2)"
      by simp
    ultimately show ?thesis
      by blast
  qed
qed

lemma toGradingMark_defaults:
  assumes g: "g = toGradingMark page (js_or language (ascii ''en'')) j token (transformMark rot raw)"
  shows "(language = Some (ascii ''zh'') \<longrightarrow>
            (raw_question raw = None \<longrightarrow> question g = Some [0x9898, 0x76EE])
            \<and> (student_answer raw = None \<longrightarrow> studentAnswer g = Some [0x672A, 0x77E5])
            \<and> (correct_answer raw = None \<longrightarrow> correctAnswer g = Some (ascii ''-''))
            \<and> (raw_explanation raw = None \<longrightarrow> explanation g = Some [0x65E0, 0x89E3, 0x6790]))
       \<and> (language = Some (ascii ''en'') \<longrightarrow>
            (raw_question raw = None \<longrightarrow> question g = Some (ascii ''Question''))
            \<and> (student_answer raw = None \<longrightarrow> studentAnswer g = Some (ascii ''Unknown''))
            \<and> (correct_answer raw = None \<longrightarrow> correctAnswer g = Some (ascii ''-''))
            \<and> (raw_explanation raw = None \<longrightarrow>
                  explanation g = Some (ascii ''No explanation provided.'')))"
proof -
  have zh: "ascii ''en'' \<noteq> ascii ''zh''" "ascii ''zh'' \<noteq> []" "ascii ''en'' \<noteq> []"
    by (simp_all add: ascii_def)
  show ?thesis
    unfolding g using zh
    by (auto simp add: toGradingMark_def transformMark_text)
qed

text \<open>
  C7. Every mark that \<open>gradeExamPages\<close> returns belongs to a page whose answer from the
  service was parsed, and the marks returned for page \<open>i\<close> are, in order, one for each
  mark of the answer for that page, with every optional text field that is missing in
  the answer replaced by the placeholder of the language detected for the page: under
  \<open>zh\<close> the question becomes the two code units U+9898 U+76EE, the student answer
  U+672A U+77E5, the correct answer \<open>-\<close> and the explanation U+65E0 U+89E3 U+6790; under
  \<open>en\<close> they become \<open>Question\<close>, \<open>Unknown\<close>, \<open>-\<close> and \<open>No explanation provided.\<close>
\<close>

theorem gradeExamPages_placeholders:
  "gradeExamPages sv br pages = Inr (marks, processedPages) \<Longrightarrow>
     (\<forall>m \<in> set marks. pageIndex m < length pages
          \<and> (\<exists>result. respond sv (pageIndex m) = Inr (Some result)))
     \<and> (\<forall>i result. i < length pages \<longrightarrow> respond sv i = Inr (Some result) \<longrightarrow>
          list_all2
            (\<lambda>m raw.
               (detected_language result = Some (ascii ''zh'') \<longrightarrow>
                  (raw_question raw = None \<longrightarrow> question m = Some [0x9898, 0x76EE])
                  \<and> (student_answer raw = None \<longrightarrow> studentAnswer m = Some [0x672A, 0x77E5])
                  \<and> (correct_answer raw = None \<longrightarrow> correctAnswer m = Some (ascii ''-''))
                  \<and> (raw_explanation raw = None \<longrightarrow>
                        explanation m = Some [0x65E0, 0x89E3, 0x6790]))
               \<and> (detected_language result = Some (ascii ''en'') \<longrightarrow>
                  (raw_question raw = None \<longrightarrow> question m = Some (ascii ''Question''))
                  \<and> (student_answer raw = None \<longrightarrow> studentAnswer m = Some (ascii ''Unknown''))
                  \<and> (correct_answer raw = None \<longrightarrow> correctAnswer m = Some (ascii ''-''))
                  \<and> (raw_explanation raw = None \<longrightarrow>
                        explanation m = Some (ascii ''No explanation provided.''))))
            (filter (\<lambda>m. pageIndex m = i) marks)
            (case result_marks result of None \<Rightarrow> [] | Some ms \<Rightarrow> ms))"
proof -
  assume run: "gradeExamPages sv br pages = Inr (marks, processedPages)"
  then obtain k where "grade_loop sv br 0 pages ([], pages, 0) = Inr (marks, processedPages, k)"
    by (auto simp add: gradeExamPages_def split: if_splits sum.splits)
  from grade_loop_marks [OF this] have
    own: "\<forall>m \<in> set marks. pageIndex m < length pages
            \<and> (\<exists>result. respond sv (pageIndex m) = Inr (Some result))"
    and made: "\<And>i result. i < length pages \<Longrightarrow> respond sv i = Inr (Some result) \<Longrightarrow>
      list_all2 (\<lambda>g m. \<exists>page token rot.
                   g = toGradingMark page (js_or (detected_language result) (ascii ''en''))
                         i token (transformMark rot m))
        (filter (\<lambda>m. pageIndex m = i) marks)
        (case result_marks result of None \<Rightarrow> [] | Some ms \<Rightarrow> ms)"
    by auto
  show ?thesis
  proof (intro conjI allI impI)
    show "\<forall>m \<in> set marks. pageIndex m < length pages
            \<and> (\<exists>result. respond sv (pageIndex m) = Inr (Some result))"
      by (rule own)
  next
    fix i result
    assume "i < length pages" "respond sv i = Inr (Some result)"
    from made [OF this] show "list_all2
            (\<lambda>m raw.
               (detected_language result = Some (ascii ''zh'') \<longrightarrow>
                  (raw_question raw = None \<longrightarrow> question m = Some [0x9898, 0x76EE])
                  \<and> (student_answer raw = None \<longrightarrow> studentAnswer m = Some [0x672A, 0x77E5])
                  \<and> (correct_answer raw = None \<longrightarrow> correctAnswer m = Some (ascii ''-''))
                  \<and> (raw_explanation raw = None \<longrightarrow>
                        explanation m = Some [0x65E0, 0x89E3, 0x6790]))
               \<and> (detected_language result = Some (ascii ''en'') \<longrightarrow>
                  (raw_question raw = None \<longrightarrow> question m = Some (ascii ''Question''))
                  \<and> (student_answer raw = None \<longrightarrow> studentAnswer m = Some (ascii ''Unknown''))
                  \<and> (correct_answer raw = None \<longrightarrow> correctAnswer m = Some (ascii ''-''))
                  \<and> (raw_explanation raw = None \<longrightarrow>
                        explanation m = Some (ascii ''No explanation provided.''))))
            (filter (\<lambda>m. pageIndex m = i) marks)
            (case result_marks result of None \<Rightarrow> [] | Some ms \<Rightarrow> ms)"
    proof (rule list_all2_mono)
      fix g raw
      assume "\<exists>page token rot.
                g = toGradingMark page (js_or (detected_language result) (ascii ''en''))
                      i token (transformMark rot raw)"
      then obtain page token rot where
        "g = toGradingMark page (js_or (detected_language result) (ascii ''en''))
               i token (transformMark rot raw)"
        by blast
      from toGradingMark_defaults [OF this]
      show "(detected_language result = Some (ascii ''zh'') \<longrightarrow>
                  (raw_question raw = None \<longrightarrow> question g = Some [0x9898, 0x76EE])
                  \<and> (student_answer raw = None \<longrightarrow> studentAnswer g = Some [0x672A, 0x77E5])
                  \<and> (correct_answer raw = None \<longrightarrow> correctAnswer g = Some (ascii ''-''))
                  \<and> (raw_explanation raw = None \<longrightarrow>
                        explanation g = Some [0x65E0, 0x89E3, 0x6790]))
               \<and> (detected_language result = Some (ascii ''en'') \<longrightarrow>
                  (raw_question raw = None \<longrightarrow> question g = Some (ascii ''Question''))
                  \<and> (student_answer raw = None \<longrightarrow> studentAnswer g = Some (ascii ''Unknown''))
                  \<and> (correct_answer raw = None \<longrightarrow> correctAnswer g = Some (ascii ''-''))
                  \<and> (raw_explanation raw = None \<longrightarrow>
                        explanation g = Some (ascii ''No explanation provided.'')))" .
    qed
  qed
qed

text \<open>
  One page, rotation 90, detected language \<open>zh\<close>, one mark without optional text: the mark
  returned has the four placeholders of \<open>zh\<close>.
\<close>

theorem gradeExamPages_placeholders_witness:
  "gradeExamPages
     (sample_service \<lparr>rotation_needed = Some 90, detected_language = Some (ascii ''zh''),
                      result_marks = Some [sample_raw 10 20 Correct]\<rparr>)
     (sample_browser (100, 200) True) [sample_page]
     = Inr ([toGradingMark sample_page (ascii ''zh'') 0 (toString 0)
               (transformMark 90 (sample_raw 10 20 Correct))],
            [sample_page\<lparr>detectedLanguage := Some (ascii ''zh'')\<rparr>])
   \<and> (0::nat) < length [sample_page]
   \<and> respond (sample_service \<lparr>rotation_needed = Some 90, detected_language = Some (ascii ''zh''),
                      result_marks = Some [sample_raw 10 20 Correct]\<rparr>) 0
        = Inr (Some \<lparr>rotation_needed = Some 90, detected_language = Some (ascii ''zh''),
                      result_marks = Some [sample_raw 10 20 Correct]\<rparr>)
   \<and> raw_question (sample_raw 10 20 Correct) = None
   \<and> student_answer (sample_raw 10 20 Correct) = None
   \<and> correct_answer (sample_raw 10 20 Correct) = None
   \<and> raw_explanation (sample_raw 10 20 Correct) = None
   \<and> question (toGradingMark sample_page (ascii ''zh'') 0 (toString 0)
               (transformMark 90 (sample_raw 10 20 Correct))) = Some [0x9898, 0x76EE]
   \<and> studentAnswer (toGradingMark sample_page (ascii ''zh'') 0 (toString 0)
               (transformMark 90 (sample_raw 10 20 Correct))) = Some [0x672A, 0x77E5]
   \<and> correctAnswer (toGradingMark sample_page (ascii ''zh'') 0 (toString 0)
               (transformMark 90 (sample_raw 10 20 Correct))) = Some (ascii ''-'')
   \<and> explanation (toGradingMark sample_page (ascii ''zh'') 0 (toString 0)
               (transformMark 90 (sample_raw 10 20 Correct))) = Some [0x65E0, 0x89E3, 0x6790]"
proof -
  let ?r = "\<lparr>rotation_needed = Some 90, detected_language = Some (ascii ''zh''),
             result_marks = Some [sample_raw 10 20 Correct]\<rparr>"
  let ?g = "toGradingMark sample_page (ascii ''zh'') 0 (toString 0)
              (transformMark 90 (sample_raw 10 20 Correct))"
  have run: "gradeExamPages (sample_service ?r) (sample_browser (100, 200) True) [sample_page]
               = Inr ([?g], [sample_page\<lparr>detectedLanguage := Some (ascii ''zh'')\<rparr>])"
    using language_default(1)
    by (simp add: gradeExamPages_def sample_service_def sample_browser_def rotateImage_def
        Let_def del: js_or.simps)
  have len: "(0::nat) < length [sample_page]"
    by simp
  have resp: "respond (sample_service ?r) 0 = Inr (Some ?r)"
    by (simp add: sample_service_def)
  have raw: "raw_question (sample_raw 10 20 Correct) = None"
    "student_answer (sample_raw 10 20 Correct) = None"
    "correct_answer (sample_raw 10 20 Correct) = None"
    "raw_explanation (sample_raw 10 20 Correct) = None"
    by (simp_all add: sample_raw_def)
  have idx: "pageIndex ?g = 0"
    by (simp add: toGradingMark_def)
  from gradeExamPages_placeholders [OF run, THEN conjunct2, rule_format, OF len resp]
  have "question ?g = Some [0x9898, 0x76EE] \<and> studentAnswer ?g = Some [0x672A, 0x77E5]
        \<and> correctAnswer ?g = Some (ascii ''-'') \<and> explanation ?g = Some [0x65E0, 0x89E3, 0x6790]"
    using raw idx by simp
  with run len resp raw show ?thesis
    by (intro conjI) simp_all
qed

section \<open>Properties of the mark editor\<close>

lemma updateMark_ids: "map mark_id (updateMark u ms) = map mark_id ms"
  by (induction ms) (simp_all add: updateMark_def)

lemma updateMark_unknown: "mark_id u \<notin> mark_id ` set ms \<Longrightarrow> updateMark u ms = ms"
  by (induction ms) (auto simp add: updateMark_def)

lemma updateMark_at:
  "distinct (map mark_id ms) \<Longrightarrow> j < length ms \<Longrightarrow> mark_id (ms ! j) = mark_id u \<Longrightarrow>
     updateMark u ms = ms[j := u]"
proof (induction ms arbitrary: j)
  case Nil
  then show ?case by simp
next
  case (Cons m ms)
  show ?case
  proof (cases j)
    case 0
    with Cons.prems have "mark_id u \<notin> mark_id ` set ms" by auto
    from updateMark_unknown [OF this] 0 Cons.prems show ?thesis
      by (simp add: updateMark_def)
  next
    case (Suc j')
    with Cons.prems have j': "j' < length ms" "mark_id (ms ! j') = mark_id u"
      by simp_all
    then have "mark_id u \<in> mark_id ` set ms"
      by (metis imageI nth_mem)
    moreover from Cons.prems have "mark_id m \<notin> mark_id ` set ms"
      by simp
    ultimately have "mark_id m \<noteq> mark_id u"
      by auto
    moreover from Cons.IH [of j'] Cons.prems j' have "updateMark u ms = ms[j' := u]"
      by simp
    ultimately show ?thesis
      using Suc by (simp add: updateMark_def)
  qed
qed

text \<open>
  C8. When no mark of the set has the id of the mark passed to \<open>update\<close>, the set stays
  exactly as it is: nothing is inserted, and the function has no error to raise. In general
  the length, the order and the ids stay, every position whose id differs keeps its mark
  and every position whose id matches gets the new mark; with pairwise distinct ids that
  is one position, and the result is the list with that position replaced.
\<close>

theorem updateMark_replaces:
  "(mark_id u \<notin> mark_id ` set ms \<longrightarrow> updateMark u ms = ms)
   \<and> length (updateMark u ms) = length ms
   \<and> map mark_id (updateMark u ms) = map mark_id ms
   \<and> (\<forall>j < length ms. updateMark u ms ! j = (if mark_id (ms ! j) = mark_id u then u else ms ! j))
   \<and> (distinct (map mark_id ms) \<longrightarrow>
        (\<forall>j < length ms. mark_id (ms ! j) = mark_id u \<longrightarrow> updateMark u ms = ms[j := u]))"
proof (intro conjI impI allI)
  show "length (updateMark u ms) = length ms"
    by (simp add: updateMark_def)
  show "map mark_id (updateMark u ms) = map mark_id ms"
    by (rule updateMark_ids)
  show "updateMark u ms = ms" if "mark_id u \<notin> mark_id ` set ms"
    using that by (rule updateMark_unknown)
  show "updateMark u ms ! j = (if mark_id (ms ! j) = mark_id u then u else ms ! j)"
    if "j < length ms" for j
    using that by (simp add: updateMark_def)
  show "updateMark u ms = ms[j := u]"
    if "distinct (map mark_id ms)" "j < length ms" "mark_id (ms ! j) = mark_id u" for j
    using that by (rule updateMark_at)
qed

theorem updateMark_replaces_witness:
  "mark_id (newMark 3 0 0 0) \<notin> mark_id ` set [newMark 1 10 20 0, newMark 2 30 40 0]
   \<and> updateMark (newMark 3 0 0 0) [newMark 1 10 20 0, newMark 2 30 40 0]
        = [newMark 1 10 20 0, newMark 2 30 40 0]
   \<and> distinct (map mark_id [newMark 1 10 20 0, newMark 2 30 40 0])
   \<and> (1::nat) < length [newMark 1 10 20 0, newMark 2 30 40 0]
   \<and> mark_id ([newMark 1 10 20 0, newMark 2 30 40 0] ! 1)
        = mark_id ((newMark 2 30 40 0)\<lparr>status := Incorrect\<rparr>)
   \<and> updateMark ((newMark 2 30 40 0)\<lparr>status := Incorrect\<rparr>) [newMark 1 10 20 0, newMark 2 30 40 0]
        = [newMark 1 10 20 0, (newMark 2 30 40 0)\<lparr>status := Incorrect\<rparr>]"
proof -
  let ?ms = "[newMark 1 10 20 0, newMark 2 30 40 0]"
  let ?u = "(newMark 2 30 40 0)\<lparr>status := Incorrect\<rparr>"
  have unknown: "mark_id (newMark 3 0 0 0) \<notin> mark_id ` set ?ms"
    by (simp add: newMark_def toString.simps digit_def)
  have ids: "distinct (map mark_id ?ms)"
    by (simp add: newMark_def toString.simps digit_def)
  have pos: "(1::nat) < length ?ms" "mark_id (?ms ! 1) = mark_id ?u"
    by (simp_all add: newMark_def)
  from updateMark_replaces [of "newMark 3 0 0 0" ?ms]
  have "mark_id (newMark 3 0 0 0) \<notin> mark_id ` set ?ms \<longrightarrow> updateMark (newMark 3 0 0 0) ?ms = ?ms"
    by (rule conjunct1)
  with unknown have a: "updateMark (newMark 3 0 0 0) ?ms = ?ms"
    by (rule rev_mp)
  from updateMark_replaces [of ?u ?ms, THEN conjunct2, THEN conjunct2, THEN conjunct2, THEN conjunct2]
  have "distinct (map mark_id ?ms) \<longrightarrow>
          (\<forall>j < length ?ms. mark_id (?ms ! j) = mark_id ?u \<longrightarrow> updateMark ?u ?ms = ?ms[j := ?u])" .
  with ids have "\<forall>j < length ?ms. mark_id (?ms ! j) = mark_id ?u \<longrightarrow> updateMark ?u ?ms = ?ms[j := ?u]"
    by (rule rev_mp)
  with pos have "updateMark ?u ?ms = ?ms[1 := ?u]"
    by (elim allE [where x = 1] impE) assumption+
  then have b: "updateMark ?u ?ms = [newMark 1 10 20 0, ?u]"
    by simp
  show ?thesis
    by (intro conjI unknown ids pos a b)
qed

section \<open>Identifiers of marks\<close>

lemma unat_digit: "d < 10 \<Longrightarrow> unat (digit d) = 48 + d"
proof -
  assume "d < 10"
  then have "(48 + d) mod 2 ^ LENGTH(16) = 48 + d"
    by simp
  then show ?thesis
    by (simp only: digit_def unat_of_nat)
qed

lemma digit_inj: "d < 10 \<Longrightarrow> e < 10 \<Longrightarrow> digit d = digit e \<Longrightarrow> d = e"
proof -
  assume d: "d < 10" and e: "e < 10" and eq: "digit d = digit e"
  from eq have "unat (digit d) = unat (digit e)"
    by (rule arg_cong)
  with d e show "d = e"
    by (simp only: unat_digit add_left_cancel)
qed

lemma digit_not_dash: "d < 10 \<Longrightarrow> digit d \<noteq> 0x2D"
proof
  assume d: "d < 10" and eq: "digit d = 0x2D"
  from eq have "unat (digit d) = unat (0x2D :: code_unit)"
    by (rule arg_cong)
  with d have "48 + d = unat (0x2D :: code_unit)"
    by (simp only: unat_digit)
  then show False
    by simp
qed

lemma toString_nonempty: "toString n \<noteq> []"
  by (subst toString.simps) simp

lemma toString_inj: "toString n = toString m \<Longrightarrow> n = m"
proof (induction n arbitrary: m rule: toString.induct)
  case (1 n)
  show ?case
  proof (cases "n < 10")
    case True
    note n = this
    show ?thesis
    proof (cases "m < 10")
      case True
      with n "1.prems" have "digit n = digit m"
        by (simp add: toString.simps [of n] toString.simps [of m])
      with n True show ?thesis by (rule digit_inj)
    next
      case False
      with n "1.prems" have "[digit n] = toString (m div 10) @ [digit (m mod 10)]"
        by (simp add: toString.simps [of n] toString.simps [of m])
      then have "toString (m div 10) = []" by simp
      with toString_nonempty show ?thesis by blast
    qed
  next
    case False
    note n = this
    show ?thesis
    proof (cases "m < 10")
      case True
      with n "1.prems" have "toString (n div 10) @ [digit (n mod 10)] = [digit m]"
        by (simp add: toString.simps [of n] toString.simps [of m])
      then have "toString (n div 10) = []" by simp
      with toString_nonempty show ?thesis by blast
    next
      case False
      with n "1.prems" have
        "toString (n div 10) @ [digit (n mod 10)] = toString (m div 10) @ [digit (m mod 10)]"
        by (simp add: toString.simps [of n] toString.simps [of m])
      then have q: "toString (n div 10) = toString (m div 10)"
        and r: "digit (n mod 10) = digit (m mod 10)"
        by simp_all
      from "1.IH" [OF n q] have "n div 10 = m div 10" .
      moreover from r have "n mod 10 = m mod 10"
        by (intro digit_inj) simp_all
      ultimately show ?thesis
        by (metis div_mult_mod_eq)
    qed
  qed
qed

lemma toString_no_dash: "0x2D \<notin> set (toString n)"
proof (induction n rule: toString.induct)
  case (1 n)
  show ?case
  proof (cases "n < 10")
    case True
    then show ?thesis
      using digit_not_dash [of n] by (auto simp add: toString.simps [of n])
  next
    case False
    with "1.IH" digit_not_dash [of "n mod 10"] show ?thesis
      by (auto simp add: toString.simps [of n])
  qed
qed

text \<open>The id of a mark of the service for a page id and a random string.\<close>

lemma service_id_not_manual:
  "ascii ''mark-'' @ p @ ascii ''-'' @ t \<noteq> ascii ''manual-'' @ s"
  by (simp add: ascii_def)

lemma service_id_token:
  assumes eq: "ascii ''mark-'' @ p @ ascii ''-'' @ t = ascii ''mark-'' @ p' @ ascii ''-'' @ t'"
    and t: "0x2D \<notin> set t" and t': "0x2D \<notin> set t'"
  shows "t = t'"
proof -
  from eq have "p @ 0x2D # t = p' @ 0x2D # t'"
    by (simp add: ascii_def)
  then have "rev t @ 0x2D # rev p = rev t' @ 0x2D # rev p'"
    by (metis rev.simps(2) rev_append append_Cons append_Nil append_assoc)
  then have "takeWhile (\<lambda>c. c \<noteq> 0x2D) (rev t @ 0x2D # rev p)
               = takeWhile (\<lambda>c. c \<noteq> 0x2D) (rev t' @ 0x2D # rev p')"
    by simp
  moreover from t have "takeWhile (\<lambda>c. c \<noteq> 0x2D) (rev t @ 0x2D # rev p) = rev t"
    by (subst takeWhile_append2) auto
  moreover from t' have "takeWhile (\<lambda>c. c \<noteq> 0x2D) (rev t' @ 0x2D # rev p') = rev t'"
    by (subst takeWhile_append2) auto
  ultimately show ?thesis
    by simp
qed

text \<open>
  While \<open>gradeExamPages\<close> runs, the ids of the marks made so far are pairwise distinct and
  each is the id of a mark of the service with one of the random strings drawn so far,
  provided the random strings differ from each other and hold no \<open>-\<close>.
\<close>

lemma pushMarks_service_ids:
  assumes inj: "inj (randomToken sv)" and nd: "\<forall>j. 0x2D \<notin> set (randomToken sv j)"
  shows "pushMarks sv page language i ms (allMarks, k) = (allMarks', k') \<Longrightarrow>
     distinct (map mark_id allMarks) \<Longrightarrow>
     (\<forall>m \<in> set allMarks. \<exists>p. \<exists>j < k. mark_id m = ascii ''mark-'' @ p @ ascii ''-'' @ randomToken sv j) \<Longrightarrow>
       distinct (map mark_id allMarks')
       \<and> (\<forall>m \<in> set allMarks'. \<exists>p. \<exists>j < k'. mark_id m = ascii ''mark-'' @ p @ ascii ''-'' @ randomToken sv j)"
proof (induction ms arbitrary: allMarks k)
  case Nil
  then show ?case by simp
next
  case (Cons m ms)
  let ?g = "toGradingMark page language i (randomToken sv k) m"
  have id: "mark_id ?g = ascii ''mark-'' @ page_id page @ ascii ''-'' @ randomToken sv k"
    by (simp add: toGradingMark_def)
  have fresh: "mark_id ?g \<notin> mark_id ` set allMarks"
  proof
    assume "mark_id ?g \<in> mark_id ` set allMarks"
    then obtain m' where m': "m' \<in> set allMarks" "mark_id ?g = mark_id m'"
      by blast
    with Cons.prems(3) obtain p j where j: "j < k"
      "mark_id m' = ascii ''mark-'' @ p @ ascii ''-'' @ randomToken sv j"
      by blast
    from m'(2) j(2) id have
      "ascii ''mark-'' @ page_id page @ ascii ''-'' @ randomToken sv k
         = ascii ''mark-'' @ p @ ascii ''-'' @ randomToken sv j"
      by simp
    from service_id_token [OF this] nd have "randomToken sv k = randomToken sv j"
      by blast
    with inj have "k = j"
      by (simp add: inj_eq)
    with j(1) show False by simp
  qed
  from Cons.prems(1) have run:
    "pushMarks sv page language i ms (allMarks @ [?g], Suc k) = (allMarks', k')"
    by simp
  from Cons.prems(2) fresh have d: "distinct (map mark_id (allMarks @ [?g]))"
    by simp
  have s: "\<forall>m \<in> set (allMarks @ [?g]).
             \<exists>p. \<exists>j < Suc k. mark_id m = ascii ''mark-'' @ p @ ascii ''-'' @ randomToken sv j"
  proof
    fix m' assume "m' \<in> set (allMarks @ [?g])"
    then consider "m' \<in> set allMarks" | "m' = ?g" by auto
    then show "\<exists>p. \<exists>j < Suc k. mark_id m' = ascii ''mark-'' @ p @ ascii ''-'' @ randomToken sv j"
    proof cases
      case 1
      with Cons.prems(3) obtain p j where "j < k"
        "mark_id m' = ascii ''mark-'' @ p @ ascii ''-'' @ randomToken sv j"
        by blast
      then show ?thesis
        using less_Suc_eq by blast
    next
      case 2
      with id show ?thesis by blast
    qed
  qed
  from Cons.IH [OF run d s] show ?case .
qed

lemma grade_loop_service_ids:
  assumes inj: "inj (randomToken sv)" and nd: "\<forall>j. 0x2D \<notin> set (randomToken sv j)"
  shows "grade_loop sv br i pages (allMarks, pp, k) = Inr (allMarks', pp', k') \<Longrightarrow>
     distinct (map mark_id allMarks) \<Longrightarrow>
     (\<forall>m \<in> set allMarks. \<exists>p. \<exists>j < k. mark_id m = ascii ''mark-'' @ p @ ascii ''-'' @ randomToken sv j) \<Longrightarrow>
       distinct (map mark_id allMarks')
       \<and> (\<forall>m \<in> set allMarks'. \<exists>p. \<exists>j < k'. mark_id m = ascii ''mark-'' @ p @ ascii ''-'' @ randomToken sv j)"
proof (induction pages arbitrary: i allMarks pp k)
  case Nil
  then show ?case by simp
next
  case (Cons page rest)
  from grade_loop_step [OF Cons.prems(1)] consider
    (empty) "grade_loop sv br (Suc i) rest (allMarks, pp, k) = Inr (allMarks', pp', k')"
  | (parsed) language ms allMarks1 pp1 k1 where
      "pushMarks sv page language i ms (allMarks, k) = (allMarks1, k1)"
      "grade_loop sv br (Suc i) rest (allMarks1, pp1, k1) = Inr (allMarks', pp', k')"
    by blast
  then show ?case
  proof cases
    case empty
    from Cons.IH [OF empty Cons.prems(2,3)] show ?thesis .
  next
    case parsed
    from pushMarks_service_ids [OF inj nd parsed(1) Cons.prems(2,3)]
    have "distinct (map mark_id allMarks1)"
      "\<forall>m \<in> set allMarks1. \<exists>p. \<exists>j < k1. mark_id m = ascii ''mark-'' @ p @ ascii ''-'' @ randomToken sv j"
      by blast+
    from Cons.IH [OF parsed(2) this] show ?thesis .
  qed
qed

lemma gradeExamPages_ids:
  assumes "gradeExamPages sv br pages = Inr (marks, processedPages)"
    and "inj (randomToken sv)" and "\<forall>j. 0x2D \<notin> set (randomToken sv j)"
  shows "distinct (map mark_id marks)"
    and "\<forall>m \<in> set marks. \<exists>p t. mark_id m = ascii ''mark-'' @ p @ ascii ''-'' @ t"
proof -
  from assms(1) obtain k where
    "grade_loop sv br 0 pages ([], pages, 0) = Inr (marks, processedPages, k)"
    by (auto simp add: gradeExamPages_def split: if_splits sum.splits)
  from grade_loop_service_ids [OF assms(2,3) this]
  have "distinct (map mark_id marks)
        \<and> (\<forall>m \<in> set marks. \<exists>p. \<exists>j < k. mark_id m = ascii ''mark-'' @ p @ ascii ''-'' @ randomToken sv j)"
    by simp
  then show "distinct (map mark_id marks)"
    and "\<forall>m \<in> set marks. \<exists>p t. mark_id m = ascii ''mark-'' @ p @ ascii ''-'' @ t"
    by blast+
qed

text \<open>
  The editor keeps the ids pairwise distinct as long as every add reads a clock value
  that no earlier add of the session has read and whose id is not in the set already.
\<close>

lemma removeMark_ids:
  "distinct (map mark_id ms) \<Longrightarrow> distinct (map mark_id (removeMark markId ms))"
  "mark_id ` set (removeMark markId ms) \<subseteq> mark_id ` set ms"
  by (auto simp add: removeMark_def distinct_map_filter)

lemma session_ids:
  "distinct (map mark_id ms) \<Longrightarrow> distinct (clock_readings es) \<Longrightarrow>
   (\<forall>now \<in> set (clock_readings es). ascii ''manual-'' @ toString now \<notin> mark_id ` set ms) \<Longrightarrow>
     distinct (map mark_id (foldl apply_event ms es))"
proof (induction es arbitrary: ms)
  case Nil
  then show ?case by simp
next
  case (Cons e es)
  show ?case
  proof (cases e)
    case (AddMark now x y pgIndex)
    let ?ms = "addMark now x y pgIndex ms"
    have ids: "map mark_id ?ms = map mark_id ms @ [ascii ''manual-'' @ toString now]"
      by (simp add: addMark_def newMark_def)
    from Cons.prems AddMark have now: "ascii ''manual-'' @ toString now \<notin> mark_id ` set ms"
      "now \<notin> set (clock_readings es)" "distinct (clock_readings es)"
      by simp_all
    from Cons.prems(1) now(1) have d: "distinct (map mark_id ?ms)"
      unfolding ids by simp
    have "ascii ''manual-'' @ toString now' \<notin> mark_id ` set ?ms"
      if "now' \<in> set (clock_readings es)" for now'
    proof -
      from that Cons.prems(3) AddMark have "ascii ''manual-'' @ toString now' \<notin> mark_id ` set ms"
        by simp
      moreover from that now(2) have "now' \<noteq> now" by blast
      then have "toString now' \<noteq> toString now"
        using toString_inj by blast
      ultimately show ?thesis
        by (simp add: addMark_def newMark_def)
    qed
    with Cons.IH [OF d now(3)] AddMark show ?thesis
      by simp
  next
    case (UpdateMark u)
    have same: "map mark_id (updateMark u ms) = map mark_id ms"
      by (rule updateMark_ids)
    from same Cons.prems(1) have d: "distinct (map mark_id (updateMark u ms))"
      by simp
    from same have "set (map mark_id (updateMark u ms)) = set (map mark_id ms)"
      by simp
    then have s: "mark_id ` set (updateMark u ms) = mark_id ` set ms"
      by simp
    from Cons.prems(2) UpdateMark have c: "distinct (clock_readings es)"
      by simp
    from Cons.prems(3) UpdateMark have
      "\<forall>now \<in> set (clock_readings es).
         ascii ''manual-'' @ toString now \<notin> mark_id ` set (updateMark u ms)"
      unfolding s by simp
    from Cons.IH [OF d c this] UpdateMark show ?thesis
      by simp
  next
    case (RemoveMark markId)
    from removeMark_ids [where ms = ms and markId = markId] Cons.prems(1) have
      d: "distinct (map mark_id (removeMark markId ms))"
      and sub: "mark_id ` set (removeMark markId ms) \<subseteq> mark_id ` set ms"
      by simp_all
    from Cons.prems(2) RemoveMark have c: "distinct (clock_readings es)"
      by simp
    from Cons.prems(3) RemoveMark have
      "\<forall>now \<in> set (clock_readings es). ascii ''manual-'' @ toString now \<notin> mark_id ` set ms"
      by simp
    with sub have
      "\<forall>now \<in> set (clock_readings es).
         ascii ''manual-'' @ toString now \<notin> mark_id ` set (removeMark markId ms)"
      by (meson subsetD)
    from Cons.IH [OF d c this] RemoveMark show ?thesis
      by simp
  qed
qed

text \<open>
  C9, as amended. After the marks of the service are installed and the user has added,
  updated and removed marks in any order, the ids of the marks are pairwise distinct,
  provided the random strings drawn for the marks of the service differ from each other
  and hold no \<open>-\<close>, and the values of the clock read by the adds differ from each other.
\<close>

theorem session_ids_distinct:
  "gradeExamPages sv br pages = Inr (aiMarks, processedPages) \<Longrightarrow>
   inj (randomToken sv) \<Longrightarrow> (\<forall>j. 0x2D \<notin> set (randomToken sv j)) \<Longrightarrow>
   distinct (clock_readings events) \<Longrightarrow>
     distinct (map mark_id (session aiMarks events))"
proof -
  assume run: "gradeExamPages sv br pages = Inr (aiMarks, processedPages)"
    and inj: "inj (randomToken sv)" and nd: "\<forall>j. 0x2D \<notin> set (randomToken sv j)"
    and clock: "distinct (clock_readings events)"
  note ids = gradeExamPages_ids [OF run inj nd]
  have "ascii ''manual-'' @ toString now \<notin> mark_id ` set aiMarks" for now
  proof
    assume "ascii ''manual-'' @ toString now \<in> mark_id ` set aiMarks"
    then obtain m where "m \<in> set aiMarks" "mark_id m = ascii ''manual-'' @ toString now"
      by auto
    with ids(2) obtain p t where
      "ascii ''mark-'' @ p @ ascii ''-'' @ t = ascii ''manual-'' @ toString now"
      by metis
    with service_id_not_manual show False
      by blast
  qed
  with session_ids [OF ids(1) clock] show ?thesis
    by (simp add: session_def)
qed

theorem session_ids_distinct_witness:
  "inj (randomToken (sample_service \<lparr>rotation_needed = Some 0, detected_language = None,
          result_marks = Some [sample_raw 10 20 Correct, sample_raw 30 40 Incorrect]\<rparr>))
   \<and> (\<forall>j. 0x2D \<notin> set (randomToken (sample_service \<lparr>rotation_needed = Some 0,
          detected_language = None,
          result_marks = Some [sample_raw 10 20 Correct, sample_raw 30 40 Incorrect]\<rparr>) j))
   \<and> distinct (clock_readings [AddMark 1000 50 50 0, RemoveMark (ascii ''mark-p1-0''),
          AddMark 1001 60 60 0])
   \<and> (\<exists>aiMarks processedPages.
        gradeExamPages (sample_service \<lparr>rotation_needed = Some 0, detected_language = None,
            result_marks = Some [sample_raw 10 20 Correct, sample_raw 30 40 Incorrect]\<rparr>)
          (sample_browser (100, 200) True) [sample_page] = Inr (aiMarks, processedPages)
        \<and> map mark_id aiMarks = [ascii ''mark-p1-0'', ascii ''mark-p1-1'']
        \<and> distinct (map mark_id (session aiMarks
             [AddMark 1000 50 50 0, RemoveMark (ascii ''mark-p1-0''), AddMark 1001 60 60 0])))"
proof -
  let ?sv = "sample_service \<lparr>rotation_needed = Some 0, detected_language = None,
          result_marks = Some [sample_raw 10 20 Correct, sample_raw 30 40 Incorrect]\<rparr>"
  let ?es = "[AddMark 1000 50 50 0, RemoveMark (ascii ''mark-p1-0''), AddMark 1001 60 60 0]"
  have inj: "inj (randomToken ?sv)"
    by (simp add: sample_service_def inj_def) (use toString_inj in blast)
  have nd: "\<forall>j. 0x2D \<notin> set (randomToken ?sv j)"
    by (simp add: sample_service_def toString_no_dash)
  have clock: "distinct (clock_readings ?es)"
    by simp
  obtain aiMarks processedPages where
    run: "gradeExamPages ?sv (sample_browser (100, 200) True) [sample_page]
            = Inr (aiMarks, processedPages)"
    and ids: "map mark_id aiMarks = [ascii ''mark-p1-0'', ascii ''mark-p1-1'']"
    by (simp add: gradeExamPages_def sample_service_def sample_page_def toGradingMark_def
        toString.simps digit_def ascii_def Let_def)
  from session_ids_distinct [OF run inj nd clock]
  have d: "distinct (map mark_id (session aiMarks ?es))" .
  from run ids d have ex: "\<exists>aiMarks processedPages.
        gradeExamPages ?sv (sample_browser (100, 200) True) [sample_page] = Inr (aiMarks, processedPages)
        \<and> map mark_id aiMarks = [ascii ''mark-p1-0'', ascii ''mark-p1-1'']
        \<and> distinct (map mark_id (session aiMarks ?es))"
    by (intro exI conjI)
  show ?thesis
    by (intro conjI inj nd clock ex)
qed

text \<open>
  C9, as stated, fails: two adds that read the same value of the clock, here 1000, give
  two marks with the same id.
\<close>

theorem same_clock_counterexample:
  "map mark_id (session [] [AddMark 1000 10 20 0, AddMark 1000 30 40 1])
     = [ascii ''manual-1000'', ascii ''manual-1000'']
   \<and> \<not> distinct (map mark_id (session [] [AddMark 1000 10 20 0, AddMark 1000 30 40 1]))"
  by (simp add: session_def addMark_def newMark_def toString.simps digit_def ascii_def)

section \<open>Rotation round trip\<close>

lemma transformMark_fl_90_four:
  "(transformMark_fl fl 90 ^^ 4) m =
     m\<lparr>raw_x := fl (100 - fl (100 - raw_x m)), raw_y := fl (100 - fl (100 - raw_y m))\<rparr>"
  by (simp add: eval_nat_numeral transformMark_fl_def)

lemma round_trip_error:
  assumes fl: "binary64_rounding fl" and x: "0 \<le> x" "x \<le> 100"
  shows "\<bar>fl (100 - fl (100 - x)) - x\<bar> \<le> 1 / 10 ^ 9"
proof -
  define a where "a = fl (100 - x)"
  define b where "b = fl (100 - a)"
  define eps :: real where "eps = 200 / 2 ^ 53"
  have eps: "2 * eps \<le> 1 / 10 ^ 9" "eps \<le> 1" "100 / 2 ^ 53 \<le> eps"
    by (simp_all add: eps_def)
  from fl have "\<bar>a - (100 - x)\<bar> \<le> \<bar>100 - x\<bar> / 2 ^ 53"
    unfolding binary64_rounding_def a_def by blast
  also from x have "\<bar>100 - x\<bar> / 2 ^ 53 \<le> 100 / 2 ^ 53"
    by (intro divide_right_mono) simp_all
  finally have e1: "\<bar>a - (100 - x)\<bar> \<le> eps"
    using eps(3) by linarith
  with x eps(2) have r: "\<bar>100 - a\<bar> \<le> 200"
    by linarith
  from fl have "\<bar>b - (100 - a)\<bar> \<le> \<bar>100 - a\<bar> / 2 ^ 53"
    unfolding binary64_rounding_def b_def by blast
  also from r have "\<bar>100 - a\<bar> / 2 ^ 53 \<le> 200 / 2 ^ 53"
    by (intro divide_right_mono) simp_all
  finally have e2: "\<bar>b - (100 - a)\<bar> \<le> eps"
    by (simp only: eps_def)
  from e1 e2 eps(1) have "\<bar>b - x\<bar> \<le> 1 / 10 ^ 9"
    by linarith
  then show ?thesis
    unfolding b_def a_def .
qed

text \<open>
  C2. Four applications of the 90 degree transform to a mark with coordinates in
  \<open>[0, 100]\<close> return each coordinate within \<open>1 / 10 ^ 9\<close> of its original value, whatever
  rounding the binary64 subtractions apply within the standard error bound, and leave
  the other fields as they are; with exact arithmetic the mark returned is the original
  mark.
\<close>

theorem rotate90_four_times:
  "binary64_rounding fl \<Longrightarrow> 0 \<le> raw_x m \<Longrightarrow> raw_x m \<le> 100 \<Longrightarrow> 0 \<le> raw_y m \<Longrightarrow> raw_y m \<le> 100 \<Longrightarrow>
     \<bar>raw_x ((transformMark_fl fl 90 ^^ 4) m) - raw_x m\<bar> \<le> 1 / 10 ^ 9
     \<and> \<bar>raw_y ((transformMark_fl fl 90 ^^ 4) m) - raw_y m\<bar> \<le> 1 / 10 ^ 9
     \<and> (transformMark_fl fl 90 ^^ 4) m
           = m\<lparr>raw_x := raw_x ((transformMark_fl fl 90 ^^ 4) m),
                raw_y := raw_y ((transformMark_fl fl 90 ^^ 4) m)\<rparr>
     \<and> (transformMark 90 ^^ 4) m = m"
proof -
  assume fl: "binary64_rounding fl"
    and x: "0 \<le> raw_x m" "raw_x m \<le> 100" and y: "0 \<le> raw_y m" "raw_y m \<le> 100"
  have exact: "transformMark 90 = transformMark_fl (\<lambda>r. r) 90"
    by (rule ext) (simp add: transformMark_def)
  have "(transformMark 90 ^^ 4) m = m"
    unfolding exact transformMark_fl_90_four by simp
  moreover note round_trip_error [OF fl x] round_trip_error [OF fl y]
  ultimately show ?thesis
    by (simp add: transformMark_fl_90_four)
qed

theorem rotate90_four_times_witness:
  "binary64_rounding (\<lambda>r. r + r / 2 ^ 53)
   \<and> 0 \<le> raw_x (sample_raw 10 20 Correct) \<and> raw_x (sample_raw 10 20 Correct) \<le> 100
   \<and> 0 \<le> raw_y (sample_raw 10 20 Correct) \<and> raw_y (sample_raw 10 20 Correct) \<le> 100
   \<and> \<bar>raw_x ((transformMark_fl (\<lambda>r. r + r / 2 ^ 53) 90 ^^ 4) (sample_raw 10 20 Correct)) - 10\<bar>
         \<le> 1 / 10 ^ 9
   \<and> \<bar>raw_y ((transformMark_fl (\<lambda>r. r + r / 2 ^ 53) 90 ^^ 4) (sample_raw 10 20 Correct)) - 20\<bar>
         \<le> 1 / 10 ^ 9
   \<and> (transformMark 90 ^^ 4) (sample_raw 10 20 Correct) = sample_raw 10 20 Correct"
proof -
  have fl: "binary64_rounding (\<lambda>r. r + r / 2 ^ 53)"
    by (simp add: binary64_rounding_def)
  have c: "0 \<le> raw_x (sample_raw 10 20 Correct)" "raw_x (sample_raw 10 20 Correct) \<le> 100"
    "0 \<le> raw_y (sample_raw 10 20 Correct)" "raw_y (sample_raw 10 20 Correct) \<le> 100"
    by (simp_all add: sample_raw_def)
  have v: "raw_x (sample_raw 10 20 Correct) = 10" "raw_y (sample_raw 10 20 Correct) = 20"
    by (simp_all add: sample_raw_def)
  from rotate90_four_times [OF fl c] show ?thesis
    unfolding v using fl c by simp
qed

section \<open>Properties of the page layout\<close>

lemma insert_by_insort_key: "insert_by (\<lambda>a b. f a - f b) a xs = insort_key f a xs"
  by (induction xs) simp_all

lemma js_sort_sort_key: "js_sort (\<lambda>a b. f a - f b) xs = sort_key f xs"
  by (induction xs) (simp_all add: js_sort_def insert_by_insort_key)

text \<open>
  C4. The marks the compositor lays out for page \<open>i\<close> are the marks of that page in order
  of non-decreasing \<open>y\<close>; the sort is stable, that is, the marks of any one \<open>y\<close> appear in
  the order in which they arrived; no mark of the page is lost or repeated.
\<close>

theorem pageMarks_sorted_stable:
  "sorted (map mark_y (pageMarks marks i))
   \<and> (\<forall>k. filter (\<lambda>m. mark_y m = k) (pageMarks marks i)
          = filter (\<lambda>m. mark_y m = k) (filter (\<lambda>m. pageIndex m = i) marks))
   \<and> mset (pageMarks marks i) = mset (filter (\<lambda>m. pageIndex m = i) marks)"
  by (simp add: pageMarks_def js_sort_sort_key sort_key_stable del: filter_filter)

text \<open>
  The marks at \<open>y = 50, 10, 90, 10\<close> of one page, added in this order, are laid out at
  \<open>y = 10, 10, 50, 90\<close>, the second mark before the fourth.
\<close>

lemma pageMarks_example:
  "pageMarks [newMark 1 0 50 0, newMark 2 0 10 0, newMark 3 0 90 0, newMark 4 0 10 0] 0
     = [newMark 2 0 10 0, newMark 4 0 10 0, newMark 1 0 50 0, newMark 3 0 90 0]"
  by (simp add: pageMarks_def js_sort_def newMark_def)

text \<open>The page is rendered from exactly these marks, in this order.\<close>

lemma generate_loop_uses_pageMarks:
  "loadImage br (imageUrl page) = Some (w, h) \<Longrightarrow> pageContext br i \<Longrightarrow>
     generate_loop br marks i (page # rest) pdf =
       generate_loop br marks (Suc i) rest
         (addPage (totalWidth w, h) (if totalWidth w > h then Landscape else Portrait)
            (renderPage br page w h (pageMarks marks i)) pdf)"
  by (simp add: Let_def)

lemma sidebarWidth_div: "sidebarWidth w = (45 * w) div 100"
proof -
  have "real w * 0.45 = real (45 * w) / real 100"
    by simp
  then have "\<lfloor>real w * 0.45\<rfloor> = \<lfloor>real (45 * w) / real 100\<rfloor>"
    by (rule arg_cong)
  also have "\<dots> = int ((45 * w) div 100)"
    by (simp only: floor_divide_of_nat_eq)
  finally show ?thesis
    by (simp add: sidebarWidth_def)
qed

lemma sidebarWidth_bounds:
  "real (sidebarWidth w) \<le> 0.45 * real w \<and> 0.45 * real w < real (sidebarWidth w) + 1"
proof -
  define r where "r = real w * 0.45"
  have "0 \<le> r" by (simp add: r_def)
  then have "0 \<le> \<lfloor>r\<rfloor>" by simp
  then have "real (sidebarWidth w) = of_int \<lfloor>r\<rfloor>"
    by (simp add: sidebarWidth_def r_def)
  moreover have "of_int \<lfloor>r\<rfloor> \<le> r" "r < of_int \<lfloor>r\<rfloor> + 1"
    by linarith+
  moreover have "0.45 * real w = r"
    by (simp add: r_def)
  ultimately show ?thesis
    by simp
qed

lemma baseFontSize_div: "baseFontSize w = int ((15 * w) div 1000)"
proof -
  have "real w * 0.015 = real (15 * w) / real 1000"
    by simp
  then have "\<lfloor>real w * 0.015\<rfloor> = \<lfloor>real (15 * w) / real 1000\<rfloor>"
    by (rule arg_cong)
  also have "\<dots> = int ((15 * w) div 1000)"
    by (simp only: floor_divide_of_nat_eq)
  finally show ?thesis
    by (simp add: baseFontSize_def)
qed

text \<open>
  A sidebar with room for text is at least 81 pixels wide, so the image is at least 180
  wide, the base font size at least 2 and the line height at least 3.
\<close>

lemma lineHeight_lower_bound: "0 < sidebarContentWidth w \<Longrightarrow> 3 \<le> lineHeight w"
proof -
  assume "0 < sidebarContentWidth w"
  then have "80 < (45 * w) div 100"
    by (simp add: sidebarContentWidth_def sidebarPadding_def sidebarWidth_div)
  then have "180 \<le> w"
    by arith
  then have "2 \<le> (15 * w) div 1000"
    by arith
  then have "2 \<le> baseFontSize w"
    by (simp add: baseFontSize_div)
  then have "(2::real) \<le> real_of_int (baseFontSize w)"
    by linarith
  then show ?thesis
    by (simp add: lineHeight_def)
qed

text \<open>
  C5. The routine is a total function: its loop runs once per code unit of the text. On
  every call the compositor makes, that is with the content width of the sidebar of an
  image as maximum width and the line height of that image, or 0.9 times it, as line
  height, a positive maximum width makes the cursor returned strictly greater than the
  cursor given, for every text that is not empty: it is the cursor given plus one line
  height for each line written, and at least one line is written. Numbers are reals here.
\<close>

theorem wrapText_advances:
  "text \<noteq> [] \<Longrightarrow> 0 < real_of_int (sidebarContentWidth w) \<Longrightarrow>
     (\<exists>out y'. wrapText mt text x y (real_of_int (sidebarContentWidth w)) (lineHeight w) = (out, y')
         \<and> y < y' \<and> y' = y + real (length out) * lineHeight w \<and> 0 < length out)
     \<and> (\<exists>out y'. wrapText mt text x y (real_of_int (sidebarContentWidth w)) (lineHeight w * 0.9) = (out, y')
         \<and> y < y' \<and> y' = y + real (length out) * (lineHeight w * 0.9) \<and> 0 < length out)"
proof -
  assume "0 < real_of_int (sidebarContentWidth w)"
  then have "0 < sidebarContentWidth w"
    by simp
  then have "3 \<le> lineHeight w"
    by (rule lineHeight_lower_bound)
  then have "0 < lineHeight w" "0 < lineHeight w * 0.9"
    by simp_all
  then show ?thesis
    by (intro conjI wrapText_positive_lineHeight)
qed

theorem wrapText_advances_witness:
  "ascii ''abcde'' \<noteq> [] \<and> 0 < real_of_int (sidebarContentWidth 200)
   \<and> lineHeight 200 = 9 / 2
   \<and> (\<exists>out y'. wrapText (real \<circ> length) (ascii ''abcde'') 0 120
                   (real_of_int (sidebarContentWidth 200)) (lineHeight 200) = (out, y')
         \<and> 120 < y' \<and> y' = 120 + real (length out) * lineHeight 200 \<and> 0 < length out)"
proof -
  have t: "ascii ''abcde'' \<noteq> []"
    by (simp add: ascii_def)
  have w: "0 < real_of_int (sidebarContentWidth 200)"
    by (simp add: sidebarContentWidth_def sidebarPadding_def sidebarWidth_def)
  have l: "lineHeight 200 = 9 / 2"
    by (simp add: lineHeight_def baseFontSize_def)
  from wrapText_advances [OF t w, of "real \<circ> length" 0 120, THEN conjunct1] t w l
  show ?thesis
    by (intro conjI)
qed

lemma addPage_size:
  "addPage (w, h) (if w > h then Landscape else Portrait) img pdf =
     pdf @ [\<lparr>page_width = min maxPageSide w, page_height = min maxPageSide h,
              page_orientation = (if w > h then Landscape else Portrait), page_image = img\<rparr>]"
  by (auto simp add: addPage_def Let_def min_def)

text \<open>
  C3, as amended. The canvas of a page whose image is \<open>w\<close> by \<open>h\<close> is \<open>w + \<lfloor>0.45 w\<rfloor>\<close> wide
  and \<open>h\<close> high: the sidebar is 0.45 times the width rounded down to a whole pixel, which
  is the integer quotient of \<open>45 w\<close> by 100. For a one-page input whose image loads and
  whose canvas gives a 2D context, the document has exactly one page; its sides are those
  of the canvas, each cut to 19200 pixels if longer, so that the page is \<open>w + \<lfloor>0.45 w\<rfloor>\<close>
  by \<open>h\<close> whenever neither exceeds 19200.
\<close>

theorem generateGradedPDF_page_size:
  "loadImage br (imageUrl page) = Some (w, h) \<Longrightarrow> pageContext br 0 \<Longrightarrow>
     \<exists>img. generateGradedPDF br [page] marks =
             Inr [\<lparr>page_width = min 19200 (w + nat \<lfloor>0.45 * real w\<rfloor>),
                   page_height = min 19200 h,
                   page_orientation = (if w + nat \<lfloor>0.45 * real w\<rfloor> > h then Landscape else Portrait),
                   page_image = img\<rparr>]
       \<and> canvas_width img = w + nat \<lfloor>0.45 * real w\<rfloor> \<and> canvas_height img = h
       \<and> nat \<lfloor>0.45 * real w\<rfloor> = (45 * w) div 100
       \<and> (w + nat \<lfloor>0.45 * real w\<rfloor> \<le> 19200 \<and> h \<le> 19200 \<longrightarrow>
            generateGradedPDF br [page] marks =
              Inr [\<lparr>page_width = w + nat \<lfloor>0.45 * real w\<rfloor>, page_height = h,
                    page_orientation = (if w + nat \<lfloor>0.45 * real w\<rfloor> > h then Landscape else Portrait),
                    page_image = img\<rparr>])"
proof -
  assume load: "loadImage br (imageUrl page) = Some (w, h)" and ctx: "pageContext br 0"
  have tw: "totalWidth w = w + nat \<lfloor>0.45 * real w\<rfloor>"
    by (simp add: totalWidth_def sidebarWidth_def mult.commute)
  have sw: "nat \<lfloor>0.45 * real w\<rfloor> = (45 * w) div 100"
    using sidebarWidth_div [of w] by (simp add: sidebarWidth_def mult.commute)
  let ?img = "renderPage br page w h (pageMarks marks 0)"
  have "generateGradedPDF br [page] marks =
          Inr (addPage (totalWidth w, h) (if totalWidth w > h then Landscape else Portrait) ?img [])"
    using load ctx by (simp add: generateGradedPDF_def Let_def)
  then have doc: "generateGradedPDF br [page] marks =
          Inr [\<lparr>page_width = min 19200 (totalWidth w), page_height = min 19200 h,
                page_orientation = (if totalWidth w > h then Landscape else Portrait),
                page_image = ?img\<rparr>]"
    by (simp only: addPage_size append_Nil maxPageSide_def)
  have small: "generateGradedPDF br [page] marks =
          Inr [\<lparr>page_width = totalWidth w, page_height = h,
                page_orientation = (if totalWidth w > h then Landscape else Portrait),
                page_image = ?img\<rparr>]" if "totalWidth w \<le> 19200 \<and> h \<le> 19200"
    using that doc by (simp add: min_absorb2)
  have cv: "canvas_width ?img = totalWidth w" "canvas_height ?img = h"
    by (simp_all add: renderPage_def totalWidth_def Let_def)
  show ?thesis
    unfolding tw [symmetric]
    by (rule exI [of _ ?img]) (use doc cv sw small tw in simp)
qed

theorem generateGradedPDF_page_size_witness:
  "loadImage (sample_browser (101, 200) True) (imageUrl sample_page) = Some (101, 200)
   \<and> pageContext (sample_browser (101, 200) True) 0
   \<and> (\<exists>img. generateGradedPDF (sample_browser (101, 200) True) [sample_page]
               [newMark 1 10 20 0, (newMark 2 30 40 0)\<lparr>status := Incorrect\<rparr>] =
             Inr [\<lparr>page_width = 146, page_height = 200, page_orientation = Portrait,
                   page_image = img\<rparr>]
         \<and> canvas_width img = 146 \<and> canvas_height img = 200)"
proof -
  have load: "loadImage (sample_browser (101, 200) True) (imageUrl sample_page) = Some (101, 200)"
    and ctx: "pageContext (sample_browser (101, 200) True) 0"
    by (simp_all add: sample_browser_def)
  have w: "(101::nat) + nat \<lfloor>0.45 * real (101::nat)\<rfloor> = 146"
    by simp
  from generateGradedPDF_page_size [OF load ctx,
      of "[newMark 1 10 20 0, (newMark 2 30 40 0)\<lparr>status := Incorrect\<rparr>]"]
  show ?thesis
    unfolding w using load ctx by auto
qed

text \<open>
  C3, as stated, fails at an image 101 pixels wide: 0.45 times 101 is 45.45, the sidebar
  is 45 pixels wide, and the page of the one-page document is 146 wide, not 146.45.
\<close>

theorem sidebar_width_counterexample:
  "real (sidebarWidth 101) \<noteq> 0.45 * real (101::nat)
   \<and> real (totalWidth 101) \<noteq> real (101::nat) + 0.45 * real (101::nat)
   \<and> (case generateGradedPDF (sample_browser (101, 200) True) [sample_page] [] of
         Inr pdf \<Rightarrow> map page_width pdf = [146] \<and> map page_height pdf = [200]
       | Inl e \<Rightarrow> False)"
  by (simp add: sidebarWidth_def totalWidth_def generateGradedPDF_def sample_browser_def
      sample_page_def addPage_def maxPageSide_def Let_def)

section \<open>Errors of the compositor\<close>

text \<open>An image that fails to load ends \<open>generateGradedPDF\<close> with an error.\<close>

lemma generate_loop_image_error:
  "loadImage br (imageUrl page) = None \<Longrightarrow>
     generate_loop br marks i (page # rest) pdf = Inl ImageLoadError"
  by simp

text \<open>
  A canvas without a 2D context is treated in two ways: \<open>rotateImage\<close> rejects with an
  error, the loop of \<open>generateGradedPDF\<close> goes on to the next page.
\<close>

lemma rotateImage_no_context:
  "angle \<noteq> 0 \<Longrightarrow> loadImage br url = Some d \<Longrightarrow> \<not> rotateContext br url \<Longrightarrow>
     rotateImage br url angle = Inl NoContext"
  by (cases d) (simp add: rotateImage_def)

lemma generate_loop_no_context:
  "loadImage br (imageUrl page) = Some d \<Longrightarrow> \<not> pageContext br i \<Longrightarrow>
     generate_loop br marks i (page # rest) pdf = generate_loop br marks (Suc i) rest pdf"
  by (cases d) (simp add: Let_def)

text \<open>
  C6 fails on the code at a one-page input whose image loads and whose canvas gives no 2D
  context: \<open>generateGradedPDF\<close> returns a document without pages, and no error.
\<close>

theorem generateGradedPDF_drops_page:
  "generateGradedPDF (sample_browser (100, 200) False) [sample_page] [] = Inr []"
  by (simp add: generateGradedPDF_def sample_browser_def Let_def)

end
